theory Spec2Isabelle
  imports Main "HOL-Library.Word"
begin

unbundle bit_operations_syntax

section \<open>Data model\<close>

text \<open>
  The container is the class \<open>SharedDataContainer\<close> of
  \<open>include/shared_data_container.h\<close>, the header the unit tests compile.
  \<open>struct Message { uint64_t val; }\<close> comes from \<open>include/message.h\<close>.
  A slot is \<open>struct Slot { std::atomic<uint32_t> used_by; Message message; }\<close>,
  the container is \<open>std::atomic<int> current_slot_id_\<close> followed by
  \<open>Slot slots[Configuration::number_of_processes + 1]\<close>.

  The model is the sequential (single-threaded) semantics of the member functions:
  every atomic operation is one state update. The number of processes \<open>N\<close>
  (\<open>PROCESSES_COUNT\<close>, passed by CMake, at most 31 by the \<open>static_assert\<close>)
  is a parameter: a container for \<open>N\<close> processes has \<open>N + 1\<close> slots.
  \<open>current_slot_id_\<close> and the slot indices are \<open>int\<close> in the code and integers here;
  the code stores only zero or an index plus one there, far from the limits of \<open>int\<close>.
  A process index is a natural number; the claims are about indices in \<open>[0, N)\<close>,
  where \<open>1 << process_index\<close> is one of the bits 0 to 30.
\<close>

record Message =
  val :: "64 word"

record Slot =
  used_by :: "32 word"
  message :: Message

record SharedDataContainer =
  current_slot_id :: int
  slots :: "Slot list"

text \<open>\<open>static const uint32_t used_by_writer = 1 << 31\<close>\<close>

definition used_by_writer :: "32 word" where
  "used_by_writer = push_bit 31 1"

text \<open>The mask \<open>1 << process_index\<close>, converted to \<open>uint32_t\<close>.\<close>

definition reader_bit :: "nat \<Rightarrow> 32 word" where
  "reader_bit process_index = push_bit process_index 1"

text \<open>
  The four \<open>std::runtime_error\<close> throws of the class, named as the specification names
  them: \<open>EMPTY\<close> ("ReaderLock should not be called for empty container"),
  \<open>DOUBLE_LOCK\<close> ("ReaderLockDouble lock by the same process"),
  \<open>NOT_LOCKED\<close> ("Attempt to unlock not locked slot"),
  \<open>NO_FREE_SLOT\<close> ("No free slots for writer").
  \<open>OUT_OF_BOUNDS\<close> is not thrown by the code: it marks an access \<open>slots[i]\<close> with
  \<open>i\<close> outside the array, which is undefined behaviour in C++; the model stops there.
\<close>

datatype error = EMPTY | DOUBLE_LOCK | NOT_LOCKED | NO_FREE_SLOT | OUT_OF_BOUNDS

text \<open>The zero-filled region: every member zero.\<close>

definition zero_slot :: Slot where
  "zero_slot = \<lparr>used_by = 0, message = \<lparr>val = 0\<rparr>\<rparr>"

definition zero_container :: "nat \<Rightarrow> SharedDataContainer" where
  "zero_container N = \<lparr>current_slot_id = 0, slots = replicate (N + 1) zero_slot\<rparr>"

section \<open>Accesses to the slot array\<close>

definition in_bounds :: "SharedDataContainer \<Rightarrow> int \<Rightarrow> bool" where
  "in_bounds c i \<longleftrightarrow> 0 \<le> i \<and> i < int (length (slots c))"

definition load_used_by :: "SharedDataContainer \<Rightarrow> int \<Rightarrow> 32 word" where
  "load_used_by c i = used_by (slots c ! nat i)"

definition store_used_by :: "int \<Rightarrow> 32 word \<Rightarrow> SharedDataContainer \<Rightarrow> SharedDataContainer" where
  "store_used_by i w c = c\<lparr>slots := (slots c)[nat i := (slots c ! nat i)\<lparr>used_by := w\<rparr>]\<rparr>"

definition store_message :: "int \<Rightarrow> Message \<Rightarrow> SharedDataContainer \<Rightarrow> SharedDataContainer" where
  "store_message i m c = c\<lparr>slots := (slots c)[nat i := (slots c ! nat i)\<lparr>message := m\<rparr>]\<rparr>"

text \<open>\<open>std::atomic_fetch_and(&slots[i].used_by, bits)\<close> and \<open>std::atomic_fetch_or\<close>.\<close>

definition atomic_fetch_and :: "int \<Rightarrow> 32 word \<Rightarrow> SharedDataContainer \<Rightarrow> SharedDataContainer" where
  "atomic_fetch_and i bits c = store_used_by i (load_used_by c i AND bits) c"

definition atomic_fetch_or :: "int \<Rightarrow> 32 word \<Rightarrow> SharedDataContainer \<Rightarrow> SharedDataContainer" where
  "atomic_fetch_or i bits c = store_used_by i (load_used_by c i OR bits) c"

text \<open>
  \<open>atomic_compare_exchange_weak(&slots[i].used_by, &expected, desired)\<close>: stores
  \<open>desired\<close> and returns true when the word equals \<open>expected\<close>, unless it fails
  spuriously (the flag \<open>spurious\<close>), which the weak form is allowed to do.
\<close>

definition atomic_compare_exchange_weak ::
  "bool \<Rightarrow> int \<Rightarrow> 32 word \<Rightarrow> 32 word \<Rightarrow> SharedDataContainer \<Rightarrow> bool \<times> SharedDataContainer" where
  "atomic_compare_exchange_weak spurious i expected desired c =
     (if \<not> spurious \<and> load_used_by c i = expected
      then (True, store_used_by i desired c)
      else (False, c))"

section \<open>Reader side\<close>

definition IsEmpty :: "SharedDataContainer \<Rightarrow> bool" where
  "IsEmpty c \<longleftrightarrow> current_slot_id c = 0"

text \<open>
  One pass through the body of the \<open>do { ... } while (!CAS)\<close> loop of \<open>ReaderLock\<close>,
  condition included. \<open>new_value\<close> is the content of the local of that name when the
  pass starts. The \<open>continue\<close> of a \<open>do\<close>-\<open>while\<close> jumps to the loop condition, so when
  the writer bit is clear the compare-and-swap is still evaluated, with the
  \<open>new_value\<close> left by the previous pass (on the first pass: whatever the
  uninitialised local holds).
\<close>

datatype pass = Thrown error | Locked int SharedDataContainer | Retry "32 word"

definition ReaderLock_pass ::
  "nat \<Rightarrow> bool \<Rightarrow> 32 word \<Rightarrow> SharedDataContainer \<Rightarrow> pass" where
  "ReaderLock_pass process_index spurious new_value c =
     (let slot_index = current_slot_id c - 1 in
      if \<not> in_bounds c slot_index then Thrown OUT_OF_BOUNDS
      else
        let current_value = load_used_by c slot_index in
        if current_value AND used_by_writer = 0 then
          (case atomic_compare_exchange_weak spurious slot_index current_value new_value c of
             (True, c') \<Rightarrow> Locked slot_index c'
           | (False, c') \<Rightarrow> Retry new_value)
        else if current_value AND reader_bit process_index \<noteq> 0 then Thrown DOUBLE_LOCK
        else
          (let new_value' = current_value OR reader_bit process_index in
           case atomic_compare_exchange_weak spurious slot_index current_value new_value' c of
             (True, c') \<Rightarrow> Locked slot_index c'
           | (False, c') \<Rightarrow> Retry new_value'))"

text \<open>
  \<open>src/main.cpp\<close>, the file CMake builds into \<open>Proc\<close>, carries its own copy of the
  class, inline. Its code differs from the header's in \<open>ReaderLock\<close> alone: the loop body
  has no double-lock check. This is one pass of that loop (\<open>src/main.cpp\<close>, lines 59 to
  70).
\<close>

definition ReaderLock_pass_inline ::
  "nat \<Rightarrow> bool \<Rightarrow> 32 word \<Rightarrow> SharedDataContainer \<Rightarrow> pass" where
  "ReaderLock_pass_inline process_index spurious new_value c =
     (let slot_index = current_slot_id c - 1 in
      if \<not> in_bounds c slot_index then Thrown OUT_OF_BOUNDS
      else
        let current_value = load_used_by c slot_index in
        if current_value AND used_by_writer = 0 then
          (case atomic_compare_exchange_weak spurious slot_index current_value new_value c of
             (True, c') \<Rightarrow> Locked slot_index c'
           | (False, c') \<Rightarrow> Retry new_value)
        else
          (let new_value' = current_value OR reader_bit process_index in
           case atomic_compare_exchange_weak spurious slot_index current_value new_value' c of
             (True, c') \<Rightarrow> Locked slot_index c'
           | (False, c') \<Rightarrow> Retry new_value'))"

text \<open>
  The loop. \<open>sched\<close> lists, pass by pass, whether the weak compare-and-swap fails
  spuriously; once the list is used up it no longer does. In a single thread nothing
  changes the word between its load and the compare-and-swap, so a pass repeats only
  after a spurious failure, and the loop ends.
\<close>

function ReaderLock_loop ::
  "nat \<Rightarrow> bool list \<Rightarrow> 32 word \<Rightarrow> SharedDataContainer \<Rightarrow> (error + int) \<times> SharedDataContainer" where
  "ReaderLock_loop process_index sched new_value c =
     (case ReaderLock_pass process_index (sched \<noteq> [] \<and> hd sched) new_value c of
        Thrown e \<Rightarrow> (Inl e, c)
      | Locked slot_index c' \<Rightarrow> (Inr slot_index, c')
      | Retry new_value' \<Rightarrow> ReaderLock_loop process_index (tl sched) new_value' c)"
  by pat_completeness auto
termination
proof (relation "measure (\<lambda>(p, sched, w, c). length sched)")
  show "wf (measure (\<lambda>(p, sched, w, c). length sched))" by simp
next
  fix process_index :: nat and sched :: "bool list" and new_value x3 :: "32 word"
    and c :: SharedDataContainer
  assume r: "ReaderLock_pass process_index (sched \<noteq> [] \<and> hd sched) new_value c = Retry x3"
  have "sched \<noteq> []"
  proof
    assume "sched = []"
    with r show False
      by (simp add: ReaderLock_pass_def Let_def atomic_compare_exchange_weak_def
          split: if_splits)
  qed
  then show "((process_index, tl sched, x3, c), (process_index, sched, new_value, c))
      \<in> measure (\<lambda>(p, sched, w, c). length sched)"
    by (cases sched) simp_all
qed

declare ReaderLock_loop.simps [simp del]

text \<open>
  \<open>int ReaderLock(int process_index)\<close>. The result is the thrown error or the returned
  handle, with the container as the call leaves it. \<open>new_value0\<close> is the content of the
  uninitialised local \<open>new_value\<close>.
\<close>

definition ReaderLock ::
  "nat \<Rightarrow> bool list \<Rightarrow> 32 word \<Rightarrow> SharedDataContainer \<Rightarrow> (error + int) \<times> SharedDataContainer" where
  "ReaderLock process_index sched new_value0 c =
     (if current_slot_id c = 0 then (Inl EMPTY, c)
      else ReaderLock_loop process_index sched new_value0 c)"

text \<open>
  The loop and the function \<open>ReaderLock\<close> of the inline copy in \<open>src/main.cpp\<close>
  (lines 45 to 73), with the same parameters.
\<close>

function ReaderLock_loop_inline ::
  "nat \<Rightarrow> bool list \<Rightarrow> 32 word \<Rightarrow> SharedDataContainer \<Rightarrow> (error + int) \<times> SharedDataContainer" where
  "ReaderLock_loop_inline process_index sched new_value c =
     (case ReaderLock_pass_inline process_index (sched \<noteq> [] \<and> hd sched) new_value c of
        Thrown e \<Rightarrow> (Inl e, c)
      | Locked slot_index c' \<Rightarrow> (Inr slot_index, c')
      | Retry new_value' \<Rightarrow> ReaderLock_loop_inline process_index (tl sched) new_value' c)"
  by pat_completeness auto
termination
proof (relation "measure (\<lambda>(p, sched, w, c). length sched)")
  show "wf (measure (\<lambda>(p, sched, w, c). length sched))" by simp
next
  fix process_index :: nat and sched :: "bool list" and new_value x3 :: "32 word"
    and c :: SharedDataContainer
  assume r: "ReaderLock_pass_inline process_index (sched \<noteq> [] \<and> hd sched) new_value c = Retry x3"
  have "sched \<noteq> []"
  proof
    assume "sched = []"
    with r show False
      by (simp add: ReaderLock_pass_inline_def Let_def atomic_compare_exchange_weak_def
          split: if_splits)
  qed
  then show "((process_index, tl sched, x3, c), (process_index, sched, new_value, c))
      \<in> measure (\<lambda>(p, sched, w, c). length sched)"
    by (cases sched) simp_all
qed

declare ReaderLock_loop_inline.simps [simp del]

definition ReaderLock_inline ::
  "nat \<Rightarrow> bool list \<Rightarrow> 32 word \<Rightarrow> SharedDataContainer \<Rightarrow> (error + int) \<times> SharedDataContainer" where
  "ReaderLock_inline process_index sched new_value0 c =
     (if current_slot_id c = 0 then (Inl EMPTY, c)
      else ReaderLock_loop_inline process_index sched new_value0 c)"

text \<open>\<open>void ReaderUnlock(int process_index, int handle)\<close>\<close>

definition ReaderUnlock ::
  "nat \<Rightarrow> int \<Rightarrow> SharedDataContainer \<Rightarrow> (error + unit) \<times> SharedDataContainer" where
  "ReaderUnlock process_index handle c =
     (if \<not> in_bounds c handle then (Inl OUT_OF_BOUNDS, c)
      else
        let current_value = load_used_by c handle in
        if current_value AND reader_bit process_index = 0 then (Inl NOT_LOCKED, c)
        else (Inr (), atomic_fetch_and handle (NOT (reader_bit process_index)) c))"

text \<open>\<open>void ReaderReset(int process_index)\<close>: the \<open>for\<close> loop over all slots.\<close>

definition ReaderReset_step :: "nat \<Rightarrow> nat \<Rightarrow> SharedDataContainer \<Rightarrow> SharedDataContainer" where
  "ReaderReset_step process_index i c =
     (if load_used_by c (int i) AND reader_bit process_index \<noteq> 0
      then atomic_fetch_and (int i) (NOT (reader_bit process_index)) c
      else c)"

definition ReaderReset :: "nat \<Rightarrow> SharedDataContainer \<Rightarrow> SharedDataContainer" where
  "ReaderReset process_index c =
     fold (ReaderReset_step process_index) [0..<length (slots c)] c"

text \<open>\<open>Message* ReaderGetMessage(int handle)\<close>: the message read through the pointer.\<close>

definition ReaderGetMessage :: "int \<Rightarrow> SharedDataContainer \<Rightarrow> error + Message" where
  "ReaderGetMessage handle c =
     (if in_bounds c handle then Inr (message (slots c ! nat handle)) else Inl OUT_OF_BOUNDS)"

section \<open>Writer side\<close>

text \<open>
  The lambda of \<open>WriterUpdateMessage\<close>: the first index \<open>i\<close> with
  \<open>slots[i].used_by == 0\<close>; \<open>None\<close> where the code throws. The list is the part of
  the array still to scan, and the counter is the index of its head.
\<close>

fun find_free_slot :: "Slot list \<Rightarrow> nat \<Rightarrow> nat option" where
  "find_free_slot [] i = None"
| "find_free_slot (s # ss) i = (if used_by s = 0 then Some i else find_free_slot ss (Suc i))"

text \<open>\<open>void WriterUpdateMessage(const Message& msg)\<close>\<close>

definition WriterUpdateMessage ::
  "Message \<Rightarrow> SharedDataContainer \<Rightarrow> (error + unit) \<times> SharedDataContainer" where
  "WriterUpdateMessage msg c =
     (case find_free_slot (slots c) 0 of
        None \<Rightarrow> (Inl NO_FREE_SLOT, c)
      | Some n \<Rightarrow>
          let next_slot_index = int n;
              c1 = store_message next_slot_index msg c;
              c2 = atomic_fetch_or next_slot_index used_by_writer c1;
              old_slot_id = current_slot_id c2;
              c3 = c2\<lparr>current_slot_id := next_slot_index + 1\<rparr>
          in if old_slot_id > 0 then
               (if in_bounds c3 (old_slot_id - 1)
                then (Inr (), atomic_fetch_and (old_slot_id - 1) (NOT used_by_writer) c3)
                else (Inl OUT_OF_BOUNDS, c3))
             else (Inr (), c3))"

text \<open>\<open>void WriterReset()\<close>: the \<open>for\<close> loop over all slots.\<close>

definition WriterReset_step :: "nat \<Rightarrow> SharedDataContainer \<Rightarrow> SharedDataContainer" where
  "WriterReset_step i c =
     (if int i \<noteq> current_slot_id c - 1 \<and> load_used_by c (int i) AND used_by_writer \<noteq> 0
      then atomic_fetch_and (int i) (NOT used_by_writer) c
      else c)"

definition WriterReset :: "SharedDataContainer \<Rightarrow> SharedDataContainer" where
  "WriterReset c = fold WriterReset_step [0..<length (slots c)] c"

section \<open>Sequences of calls\<close>

text \<open>
  A call of one member function. \<open>Op_ReaderLock\<close> carries, besides the process index,
  the spurious-failure schedule of the weak compare-and-swap and the content of the
  uninitialised local \<open>new_value\<close>.
\<close>

datatype operation =
    Op_IsEmpty
  | Op_ReaderLock nat "bool list" "32 word"
  | Op_ReaderUnlock nat int
  | Op_ReaderReset nat
  | Op_WriterUpdateMessage Message
  | Op_WriterReset

text \<open>The error a call throws, if any, and the container after it.\<close>

fun apply_operation :: "operation \<Rightarrow> SharedDataContainer \<Rightarrow> error option \<times> SharedDataContainer" where
  "apply_operation Op_IsEmpty c = (None, c)"
| "apply_operation (Op_ReaderLock p sched w) c =
     (case ReaderLock p sched w c of (Inl e, c') \<Rightarrow> (Some e, c') | (Inr h, c') \<Rightarrow> (None, c'))"
| "apply_operation (Op_ReaderUnlock p h) c =
     (case ReaderUnlock p h c of (Inl e, c') \<Rightarrow> (Some e, c') | (Inr u, c') \<Rightarrow> (None, c'))"
| "apply_operation (Op_ReaderReset p) c = (None, ReaderReset p c)"
| "apply_operation (Op_WriterUpdateMessage msg) c =
     (case WriterUpdateMessage msg c of (Inl e, c') \<Rightarrow> (Some e, c') | (Inr u, c') \<Rightarrow> (None, c'))"
| "apply_operation Op_WriterReset c = (None, WriterReset c)"

text \<open>
  A single-threaded run: a caller that catches each exception and goes on, as the unit
  tests do with \<open>REQUIRE_THROWS\<close>. The run has no result (\<open>None\<close>) once a call leaves
  the slot array.
\<close>

fun run :: "operation list \<Rightarrow> SharedDataContainer \<Rightarrow> SharedDataContainer option" where
  "run [] c = Some c"
| "run (x # xs) c =
     (case apply_operation x c of
        (r, c') \<Rightarrow> if r = Some OUT_OF_BOUNDS then None else run xs c')"

text \<open>
  The preconditions of a call: the process index of a reader call lies in \<open>[0, N)\<close>,
  and the handle passed to \<open>ReaderUnlock\<close> is a slot index, in \<open>[0, N]\<close>.
\<close>

fun operation_ok :: "nat \<Rightarrow> operation \<Rightarrow> bool" where
  "operation_ok N (Op_ReaderLock p sched w) \<longleftrightarrow> p < N"
| "operation_ok N (Op_ReaderUnlock p h) \<longleftrightarrow> p < N \<and> 0 \<le> h \<and> h \<le> int N"
| "operation_ok N (Op_ReaderReset p) \<longleftrightarrow> p < N"
| "operation_ok N x \<longleftrightarrow> True"

text \<open>
  The loop of the tests "Lock several slots by the same process" and "Writes when all
  readers has a single locked slot": publish a message, then lock the current slot,
  keeping the handle; one round per list element (process index, message, and the two
  parameters of \<open>ReaderLock\<close>). An exception ends the loop.
\<close>

fun publish_and_lock ::
  "(nat \<times> Message \<times> bool list \<times> 32 word) list \<Rightarrow> SharedDataContainer
     \<Rightarrow> (error + int list) \<times> SharedDataContainer" where
  "publish_and_lock [] c = (Inr [], c)"
| "publish_and_lock ((p, msg, sched, w) # rest) c =
     (case WriterUpdateMessage msg c of
        (Inl e, c1) \<Rightarrow> (Inl e, c1)
      | (Inr u, c1) \<Rightarrow>
          (case ReaderLock p sched w c1 of
             (Inl e, c2) \<Rightarrow> (Inl e, c2)
           | (Inr h, c2) \<Rightarrow>
               (case publish_and_lock rest c2 of
                  (Inl e, c3) \<Rightarrow> (Inl e, c3)
                | (Inr hs, c3) \<Rightarrow> (Inr (h # hs), c3))))"

text \<open>Publishing a list of messages one after the other; an exception ends the loop.\<close>

fun publish_all :: "Message list \<Rightarrow> SharedDataContainer \<Rightarrow> (error + unit) \<times> SharedDataContainer" where
  "publish_all [] c = (Inr (), c)"
| "publish_all (msg # rest) c =
     (case WriterUpdateMessage msg c of
        (Inl e, c1) \<Rightarrow> (Inl e, c1)
      | (Inr u, c1) \<Rightarrow> publish_all rest c1)"

text \<open>
  The state word of slot \<open>j\<close> in a container whose current slot carries the writer mark
  and nothing else, and where \<open>pins\<close> lists the pins held, as pairs (process index,
  slot index): a pinned slot carries the bit of its process, any other slot is free.
\<close>

definition pin_word :: "int \<Rightarrow> (nat \<times> nat) list \<Rightarrow> nat \<Rightarrow> 32 word" where
  "pin_word cur pins j =
     (if int j = cur - 1 then used_by_writer
      else case filter (\<lambda>(p, s). s = j) pins of
             [] \<Rightarrow> 0
           | (p, s) # rest \<Rightarrow> reader_bit p)"

text \<open>
  \<open>N - 1\<close> distinct processes hold one pin each, on \<open>N - 1\<close> distinct slots, none of
  them the current slot, which carries the writer mark.
\<close>

definition single_pins :: "nat \<Rightarrow> (nat \<times> nat) list \<Rightarrow> SharedDataContainer \<Rightarrow> bool" where
  "single_pins N pins c \<longleftrightarrow>
     0 < N \<and> N \<le> 31 \<and>
     length pins = N - 1 \<and> distinct (map fst pins) \<and> distinct (map snd pins) \<and>
     list_all (\<lambda>(p, s). p < N \<and> s \<le> N \<and> int s \<noteq> current_slot_id c - 1) pins \<and>
     1 \<le> current_slot_id c \<and> current_slot_id c \<le> int N + 1 \<and>
     map used_by (slots c) = map (pin_word (current_slot_id c) pins) [0..<N + 1]"

text \<open>
  The invariant of the container for \<open>N\<close> processes that the member functions keep in
  a single thread: \<open>N + 1\<close> slots, \<open>current_slot_id_\<close> zero or the index plus one of a
  slot, and that slot marked by the writer.
\<close>

definition container_inv :: "nat \<Rightarrow> SharedDataContainer \<Rightarrow> bool" where
  "container_inv N c \<longleftrightarrow>
     length (slots c) = N + 1 \<and>
     0 \<le> current_slot_id c \<and> current_slot_id c \<le> int N + 1 \<and>
     (current_slot_id c \<noteq> 0 \<longrightarrow> bit (load_used_by c (current_slot_id c - 1)) 31)"

text \<open>
  What a handle \<open>h\<close> held by process \<open>p\<close> stands for: slot \<open>h\<close> exists, carries the pin
  of \<open>p\<close>, and holds the message \<open>m\<close>.
\<close>

definition holds_pin :: "SharedDataContainer \<Rightarrow> int \<Rightarrow> nat \<Rightarrow> Message \<Rightarrow> bool" where
  "holds_pin c h p m \<longleftrightarrow>
     in_bounds c h \<and> bit (load_used_by c h) p \<and> message (slots c ! nat h) = m"

section \<open>The process binary\<close>

text \<open>
  The argument check at the head of \<open>main\<close> (\<open>src/main.cpp\<close>):
  \<^verbatim>\<open>if (argc < 2) { ...; return 1; }\<close>
  \<^verbatim>\<open>int process_index = std::stoi(argv[1]);\<close>
  \<^verbatim>\<open>if (process_index > Configuration::number_of_processes) { ...; return 1; }\<close>
  \<open>process_index\<close> is the \<open>int\<close> that \<open>std::stoi\<close> returned, as its 32-bit pattern;
  \<open>number_of_processes\<close> is \<open>const unsigned\<close>, so the comparison converts the \<open>int\<close>
  to \<open>unsigned\<close> and is the unsigned order of words. The result is the status
  returned, or \<open>None\<close> when \<open>main\<close> goes on to its endless loop.
\<close>

definition main_arguments :: "32 word \<Rightarrow> int \<Rightarrow> 32 word \<Rightarrow> int option" where
  "main_arguments number_of_processes argc process_index =
     (if argc < 2 then Some 1
      else if process_index > number_of_processes then Some 1
      else None)"

section \<open>Basic facts about the accesses\<close>

lemma slots_store_used_by [simp]:
  "length (slots (store_used_by i w c)) = length (slots c)"
  "current_slot_id (store_used_by i w c) = current_slot_id c"
  by (simp_all add: store_used_by_def)

lemma slots_store_message [simp]:
  "length (slots (store_message i m c)) = length (slots c)"
  "current_slot_id (store_message i m c) = current_slot_id c"
  by (simp_all add: store_message_def)

lemma nth_store_used_by:
  "j < length (slots c) \<Longrightarrow>
   slots (store_used_by i w c) ! j =
     (if j = nat i then (slots c ! j)\<lparr>used_by := w\<rparr> else slots c ! j)"
  by (simp add: store_used_by_def nth_list_update)

lemma nth_store_message:
  "j < length (slots c) \<Longrightarrow>
   slots (store_message i m c) ! j =
     (if j = nat i then (slots c ! j)\<lparr>message := m\<rparr> else slots c ! j)"
  by (simp add: store_message_def nth_list_update)

lemma atomic_fetch_and_frame [simp]:
  "length (slots (atomic_fetch_and i b c)) = length (slots c)"
  "current_slot_id (atomic_fetch_and i b c) = current_slot_id c"
  by (simp_all add: atomic_fetch_and_def)

lemma atomic_fetch_or_frame [simp]:
  "length (slots (atomic_fetch_or i b c)) = length (slots c)"
  "current_slot_id (atomic_fetch_or i b c) = current_slot_id c"
  by (simp_all add: atomic_fetch_or_def)

lemma nth_atomic_fetch_and:
  "j < length (slots c) \<Longrightarrow>
   slots (atomic_fetch_and i b c) ! j =
     (if j = nat i then (slots c ! j)\<lparr>used_by := used_by (slots c ! j) AND b\<rparr> else slots c ! j)"
  by (simp add: atomic_fetch_and_def nth_store_used_by load_used_by_def)

lemma nth_atomic_fetch_or:
  "j < length (slots c) \<Longrightarrow>
   slots (atomic_fetch_or i b c) ! j =
     (if j = nat i then (slots c ! j)\<lparr>used_by := used_by (slots c ! j) OR b\<rparr> else slots c ! j)"
  by (simp add: atomic_fetch_or_def nth_store_used_by load_used_by_def)

lemma in_bounds_nat: "in_bounds c i \<Longrightarrow> nat i < length (slots c)"
  by (auto simp: in_bounds_def)

lemma bit_reader_bit: "bit (reader_bit p) k \<longleftrightarrow> k = p \<and> p < 32"
  by (auto simp: reader_bit_def bit_exp_iff)

lemma used_by_writer_reader_bit: "used_by_writer = reader_bit 31"
  by (simp add: used_by_writer_def reader_bit_def)

lemma reader_bit_test: "w AND reader_bit p = 0 \<longleftrightarrow> \<not> bit w p"
proof
  assume z: "w AND reader_bit p = 0"
  show "\<not> bit w p"
  proof
    assume b: "bit w p"
    then have "p < 32" by (auto dest: bit_imp_le_length)
    with b have "bit (w AND reader_bit p) p" by (simp add: bit_and_iff bit_reader_bit)
    with z show False by simp
  qed
next
  assume "\<not> bit w p"
  then show "w AND reader_bit p = 0"
    by (intro bit_eqI) (auto simp: bit_and_iff bit_reader_bit)
qed

lemma writer_bit_test: "w AND used_by_writer = 0 \<longleftrightarrow> \<not> bit w 31"
  by (simp add: used_by_writer_reader_bit reader_bit_test)

lemma bit_clear_reader: "bit (w AND NOT (reader_bit p)) k \<longleftrightarrow> bit w k \<and> k \<noteq> p"
  by (auto simp: bit_and_iff bit_not_iff bit_reader_bit dest: bit_imp_le_length)

lemma bit_clear_writer: "bit (w AND NOT used_by_writer) k \<longleftrightarrow> bit w k \<and> k \<noteq> 31"
  by (simp add: used_by_writer_reader_bit bit_clear_reader)

lemma bit_set_reader: "bit (w OR reader_bit p) k \<longleftrightarrow> bit w k \<or> (k = p \<and> p < 32)"
  by (auto simp: bit_or_iff bit_reader_bit)

lemma bit_set_writer: "bit (w OR used_by_writer) k \<longleftrightarrow> bit w k \<or> k = 31"
  by (simp add: used_by_writer_reader_bit bit_set_reader)

section \<open>Double lock\<close>

text \<open>
  The \<open>ReaderLock\<close> of the header: whenever \<open>current_slot_id_\<close> is nonzero and the slot
  at \<open>current_slot_id_ - 1\<close> has both the writer bit (bit 31) and the bit of process \<open>p\<close>
  set, it throws the double-lock error and leaves the container as it was, whatever the
  spurious failures of the weak compare-and-swap and whatever the uninitialised local
  holds.
\<close>

lemma ReaderLock_header_double_lock:
  assumes "current_slot_id c \<noteq> 0"
    and "in_bounds c (current_slot_id c - 1)"
    and "bit (load_used_by c (current_slot_id c - 1)) 31"
    and "bit (load_used_by c (current_slot_id c - 1)) p"
  shows "ReaderLock p sched w c = (Inl DOUBLE_LOCK, c)"
  using assms
  by (simp add: ReaderLock_def ReaderLock_loop.simps [of p sched w c] ReaderLock_pass_def
      Let_def writer_bit_test reader_bit_test)

text \<open>
  The test "Double lock of the same slot by the same process" on the header, with three
  processes: after \<open>WriterUpdateMessage(Message{5})\<close> and \<open>ReaderLock(0)\<close>, a second
  \<open>ReaderLock(0)\<close> throws.
\<close>

lemma ReaderLock_header_double_lock_test:
  "(let c = snd (ReaderLock 0 [] 0 (snd (WriterUpdateMessage \<lparr>val = 5\<rparr> (zero_container 3))))
    in c = \<lparr>current_slot_id = 1,
             slots = [\<lparr>used_by = 2147483649, message = \<lparr>val = 5\<rparr>\<rparr>,
                      zero_slot, zero_slot, zero_slot]\<rparr>
       \<and> ReaderLock 0 [True, False] 7 c = (Inl DOUBLE_LOCK, c))"
proof -
  define c where "c = \<lparr>current_slot_id = 1,
             slots = [\<lparr>used_by = 2147483649, message = \<lparr>val = 5\<rparr>\<rparr>,
                      zero_slot, zero_slot, zero_slot]\<rparr>"
  have run: "snd (ReaderLock 0 [] 0 (snd (WriterUpdateMessage \<lparr>val = 5\<rparr> (zero_container 3)))) = c"
    unfolding c_def by code_simp
  have "ReaderLock 0 [True, False] 7 c = (Inl DOUBLE_LOCK, c)"
    by (rule ReaderLock_header_double_lock) (simp_all add: c_def in_bounds_def load_used_by_def)
  with run show ?thesis by (simp add: Let_def c_def)
qed

text \<open>
  The inline copy of \<open>src/main.cpp\<close> does not throw in that state: a pass computes
  \<open>new_value = current_value | (1 << p)\<close>, which is \<open>current_value\<close>, and the
  compare-and-swap, unless it fails spuriously, stores it and ends the loop. So the call
  returns the slot index and leaves the container as it was, in every such state.
\<close>

lemma ReaderLock_pass_inline_no_check:
  assumes "in_bounds c (current_slot_id c - 1)"
    and "bit (load_used_by c (current_slot_id c - 1)) 31"
    and "bit (load_used_by c (current_slot_id c - 1)) p"
  shows "ReaderLock_pass_inline p spurious w c =
           (if spurious then Retry (load_used_by c (current_slot_id c - 1))
            else Locked (current_slot_id c - 1) c)"
proof -
  have "load_used_by c (current_slot_id c - 1) OR reader_bit p = load_used_by c (current_slot_id c - 1)"
    using assms(3) by (intro bit_eqI) (auto simp: bit_set_reader)
  moreover have "store_used_by (current_slot_id c - 1) (load_used_by c (current_slot_id c - 1)) c = c"
    by (simp add: store_used_by_def load_used_by_def)
  ultimately show ?thesis
    using assms(1,2)
    by (simp add: ReaderLock_pass_inline_def Let_def writer_bit_test
        atomic_compare_exchange_weak_def)
qed

lemma ReaderLock_inline_no_check:
  assumes "current_slot_id c \<noteq> 0"
    and "in_bounds c (current_slot_id c - 1)"
    and "bit (load_used_by c (current_slot_id c - 1)) 31"
    and "bit (load_used_by c (current_slot_id c - 1)) p"
  shows "ReaderLock_inline p sched w c = (Inr (current_slot_id c - 1), c)"
proof -
  have "ReaderLock_loop_inline p sched w c = (Inr (current_slot_id c - 1), c)"
  proof (induction sched arbitrary: w)
    case Nil
    show ?case
      by (subst ReaderLock_loop_inline.simps)
        (simp add: ReaderLock_pass_inline_no_check [OF assms(2-4)])
  next
    case (Cons b bs)
    then show ?case
      by (subst ReaderLock_loop_inline.simps)
        (simp add: ReaderLock_pass_inline_no_check [OF assms(2-4)])
  qed
  with assms(1) show ?thesis by (simp add: ReaderLock_inline_def)
qed

text \<open>
  Claim C1. With the writer bit and the bit of process \<open>p\<close> set on the current slot,
  \<open>ReaderLock(p)\<close> should throw the double-lock error. The header's \<open>ReaderLock\<close> does; the
  \<open>ReaderLock\<close> of \<open>src/main.cpp\<close> does not. The test "Double lock of the same slot by the
  same process" on that copy, with three processes: after
  \<open>WriterUpdateMessage(Message{5})\<close> and \<open>ReaderLock(0)\<close> the container has
  \<open>current_slot_id_ = 1\<close> and the word \<open>0x80000001\<close> on slot 0, and the second
  \<open>ReaderLock(0)\<close> returns the handle 0 instead of throwing.
\<close>

theorem ReaderLock_inline_double_lock_returns:
  "ReaderLock_inline 0 [] 0 (snd (WriterUpdateMessage \<lparr>val = 5\<rparr> (zero_container 3)))
   = (Inr 0,
      \<lparr>current_slot_id = 1,
        slots = [\<lparr>used_by = 2147483649, message = \<lparr>val = 5\<rparr>\<rparr>,
                 zero_slot, zero_slot, zero_slot]\<rparr>)
   \<and> ReaderLock_inline 0 [] 0
        \<lparr>current_slot_id = 1,
          slots = [\<lparr>used_by = 2147483649, message = \<lparr>val = 5\<rparr>\<rparr>,
                   zero_slot, zero_slot, zero_slot]\<rparr>
   = (Inr 0,
      \<lparr>current_slot_id = 1,
        slots = [\<lparr>used_by = 2147483649, message = \<lparr>val = 5\<rparr>\<rparr>,
                 zero_slot, zero_slot, zero_slot]\<rparr>)"
proof
  show "ReaderLock_inline 0 [] 0 (snd (WriterUpdateMessage \<lparr>val = 5\<rparr> (zero_container 3)))
   = (Inr 0,
      \<lparr>current_slot_id = 1,
        slots = [\<lparr>used_by = 2147483649, message = \<lparr>val = 5\<rparr>\<rparr>,
                 zero_slot, zero_slot, zero_slot]\<rparr>)"
    by code_simp
next
  show "ReaderLock_inline 0 [] 0
        \<lparr>current_slot_id = 1,
          slots = [\<lparr>used_by = 2147483649, message = \<lparr>val = 5\<rparr>\<rparr>,
                   zero_slot, zero_slot, zero_slot]\<rparr>
   = (Inr 0,
      \<lparr>current_slot_id = 1,
        slots = [\<lparr>used_by = 2147483649, message = \<lparr>val = 5\<rparr>\<rparr>,
                 zero_slot, zero_slot, zero_slot]\<rparr>)"
    by code_simp
qed

section \<open>The scan for a free slot\<close>

lemma find_free_slot_None: "find_free_slot ss i = None \<longleftrightarrow> (\<forall>s\<in>set ss. used_by s \<noteq> 0)"
  by (induction ss arbitrary: i) auto

lemma find_free_slot_Some:
  "find_free_slot ss i = Some n \<Longrightarrow>
     i \<le> n \<and> n - i < length ss \<and> used_by (ss ! (n - i)) = 0 \<and> (\<forall>j<n - i. used_by (ss ! j) \<noteq> 0)"
proof (induction ss arbitrary: i)
  case Nil
  then show ?case by simp
next
  case (Cons s ss)
  show ?case
  proof (cases "used_by s = 0")
    case True
    with Cons.prems show ?thesis by simp
  next
    case False
    with Cons.prems have "find_free_slot ss (Suc i) = Some n" by simp
    from Cons.IH [OF this] have ih: "Suc i \<le> n" "n - Suc i < length ss"
      "used_by (ss ! (n - Suc i)) = 0" "\<forall>j<n - Suc i. used_by (ss ! j) \<noteq> 0" by simp_all
    from ih(1) have eq: "n - i = Suc (n - Suc i)" by simp
    have "\<forall>j<n - i. used_by ((s # ss) ! j) \<noteq> 0"
    proof (intro allI impI)
      fix j assume "j < n - i"
      then show "used_by ((s # ss) ! j) \<noteq> 0"
        using False ih(4) eq by (cases j) auto
    qed
    with ih eq show ?thesis by simp
  qed
qed

lemma find_free_slot_first:
  assumes "find_free_slot (slots c) 0 = Some n"
  shows "n < length (slots c)" "used_by (slots c ! n) = 0" "\<forall>j<n. used_by (slots c ! j) \<noteq> 0"
  using find_free_slot_Some [OF assms] by simp_all

lemma WriterUpdateMessage_throws_iff:
  "fst (WriterUpdateMessage msg c) = Inl NO_FREE_SLOT \<longleftrightarrow> find_free_slot (slots c) 0 = None"
  by (simp add: WriterUpdateMessage_def Let_def split: option.splits)

section \<open>No free slot\<close>

text \<open>
  Claim C5. \<open>WriterUpdateMessage\<close> throws the no-free-slot error exactly when every
  slot's \<open>used_by\<close> word is nonzero at the call, and then the container (state words,
  messages and \<open>current_slot_id_\<close>) is as it was.
\<close>

theorem WriterUpdateMessage_no_free_slot:
  "(fst (WriterUpdateMessage msg c) = Inl NO_FREE_SLOT \<longleftrightarrow> (\<forall>s\<in>set (slots c). used_by s \<noteq> 0)) \<and>
   (fst (WriterUpdateMessage msg c) = Inl NO_FREE_SLOT \<longrightarrow> snd (WriterUpdateMessage msg c) = c)"
proof
  show "fst (WriterUpdateMessage msg c) = Inl NO_FREE_SLOT \<longleftrightarrow> (\<forall>s\<in>set (slots c). used_by s \<noteq> 0)"
    by (simp add: WriterUpdateMessage_throws_iff find_free_slot_None)
next
  show "fst (WriterUpdateMessage msg c) = Inl NO_FREE_SLOT \<longrightarrow> snd (WriterUpdateMessage msg c) = c"
    by (simp add: WriterUpdateMessage_throws_iff) (simp add: WriterUpdateMessage_def)
qed

text \<open>
  The test "Writes when one process locked all slots", with three processes: process 0
  locks after each of four publications, then the fifth publication throws.
\<close>

theorem WriterUpdateMessage_no_free_slot_witness:
  "WriterUpdateMessage \<lparr>val = 1\<rparr>
     (snd (publish_and_lock
        [(0, \<lparr>val = 0\<rparr>, [], 0), (0, \<lparr>val = 10\<rparr>, [], 0),
         (0, \<lparr>val = 20\<rparr>, [], 0), (0, \<lparr>val = 30\<rparr>, [], 0)] (zero_container 3)))
   = (Inl NO_FREE_SLOT,
      \<lparr>current_slot_id = 4,
        slots = [\<lparr>used_by = 1, message = \<lparr>val = 0\<rparr>\<rparr>, \<lparr>used_by = 1, message = \<lparr>val = 10\<rparr>\<rparr>,
                 \<lparr>used_by = 1, message = \<lparr>val = 20\<rparr>\<rparr>,
                 \<lparr>used_by = 2147483649, message = \<lparr>val = 30\<rparr>\<rparr>]\<rparr>)"
proof -
  define c where "c = \<lparr>current_slot_id = 4,
        slots = [\<lparr>used_by = 1, message = \<lparr>val = 0\<rparr>\<rparr>, \<lparr>used_by = 1, message = \<lparr>val = 10\<rparr>\<rparr>,
                 \<lparr>used_by = 1, message = \<lparr>val = 20\<rparr>\<rparr>,
                 \<lparr>used_by = 2147483649, message = \<lparr>val = 30\<rparr>\<rparr>]\<rparr>"
  have run: "snd (publish_and_lock
        [(0, \<lparr>val = 0\<rparr>, [], 0), (0, \<lparr>val = 10\<rparr>, [], 0),
         (0, \<lparr>val = 20\<rparr>, [], 0), (0, \<lparr>val = 30\<rparr>, [], 0)] (zero_container 3)) = c"
    unfolding c_def by code_simp
  have full: "\<forall>s\<in>set (slots c). used_by s \<noteq> 0" by (simp add: c_def)
  from WriterUpdateMessage_no_free_slot [of "\<lparr>val = 1\<rparr>" c] full
  have "fst (WriterUpdateMessage \<lparr>val = 1\<rparr> c) = Inl NO_FREE_SLOT"
    and "snd (WriterUpdateMessage \<lparr>val = 1\<rparr> c) = c" by blast+
  then have "WriterUpdateMessage \<lparr>val = 1\<rparr> c = (Inl NO_FREE_SLOT, c)"
    by (simp add: prod_eq_iff)
  with run show ?thesis by (simp add: c_def)
qed

section \<open>Unlock\<close>

lemma ReaderUnlock_not_locked:
  "in_bounds c h \<Longrightarrow> \<not> bit (load_used_by c h) p \<Longrightarrow> ReaderUnlock p h c = (Inl NOT_LOCKED, c)"
  by (simp add: ReaderUnlock_def Let_def reader_bit_test)

lemma ReaderUnlock_locked:
  "in_bounds c h \<Longrightarrow> bit (load_used_by c h) p \<Longrightarrow>
   ReaderUnlock p h c = (Inr (), atomic_fetch_and h (NOT (reader_bit p)) c)"
  by (simp add: ReaderUnlock_def Let_def reader_bit_test)

text \<open>
  Claim C6. For a process index \<open>p\<close> in \<open>[0, N)\<close> and a slot index \<open>h\<close> in \<open>[0, N]\<close>,
  \<open>ReaderUnlock(p, h)\<close> throws the not-locked error when bit \<open>p\<close> of slot \<open>h\<close> is clear;
  otherwise it returns, and the container differs from the one before in bit \<open>p\<close> of
  slot \<open>h\<close> alone, which is now clear. Nothing but the state word decides: the theorem
  holds in every container state, however bit \<open>p\<close> came to be set.
\<close>

theorem ReaderUnlock_clears_own_bit:
  assumes "length (slots c) = N + 1" and "N \<le> 31" and "p < N" and "0 \<le> h" and "h \<le> int N"
  shows "(\<not> bit (load_used_by c h) p \<longrightarrow> ReaderUnlock p h c = (Inl NOT_LOCKED, c)) \<and>
         (bit (load_used_by c h) p \<longrightarrow>
            fst (ReaderUnlock p h c) = Inr () \<and>
            current_slot_id (snd (ReaderUnlock p h c)) = current_slot_id c \<and>
            length (slots (snd (ReaderUnlock p h c))) = N + 1 \<and>
            (\<forall>j\<le>N. message (slots (snd (ReaderUnlock p h c)) ! j) = message (slots c ! j) \<and>
               (\<forall>k. bit (used_by (slots (snd (ReaderUnlock p h c)) ! j)) k \<longleftrightarrow>
                      bit (used_by (slots c ! j)) k \<and> \<not> (int j = h \<and> k = p))))"
proof -
  from assms have ib: "in_bounds c h" by (simp add: in_bounds_def)
  show ?thesis
  proof (intro conjI impI)
    assume "\<not> bit (load_used_by c h) p"
    with ib show "ReaderUnlock p h c = (Inl NOT_LOCKED, c)" by (rule ReaderUnlock_not_locked)
  next
    assume b: "bit (load_used_by c h) p"
    note u = ReaderUnlock_locked [OF ib b]
    show "fst (ReaderUnlock p h c) = Inr ()" by (simp add: u)
    show "current_slot_id (snd (ReaderUnlock p h c)) = current_slot_id c" by (simp add: u)
    show "length (slots (snd (ReaderUnlock p h c))) = N + 1" by (simp add: u assms(1))
    show "\<forall>j\<le>N. message (slots (snd (ReaderUnlock p h c)) ! j) = message (slots c ! j) \<and>
               (\<forall>k. bit (used_by (slots (snd (ReaderUnlock p h c)) ! j)) k \<longleftrightarrow>
                      bit (used_by (slots c ! j)) k \<and> \<not> (int j = h \<and> k = p))"
    proof (intro allI impI)
      fix j assume "j \<le> N"
      with assms(1) have j: "j < length (slots c)" by simp
      from assms(4) have hj: "j = nat h \<longleftrightarrow> int j = h" by auto
      show "message (slots (snd (ReaderUnlock p h c)) ! j) = message (slots c ! j) \<and>
               (\<forall>k. bit (used_by (slots (snd (ReaderUnlock p h c)) ! j)) k \<longleftrightarrow>
                      bit (used_by (slots c ! j)) k \<and> \<not> (int j = h \<and> k = p))"
        using j hj by (auto simp: u nth_atomic_fetch_and bit_clear_reader)
    qed
  qed
qed

text \<open>
  The test "Unlock another's handle for the same slot", with three processes: after one
  publication, processes 0 and 1 lock the same slot 0, and \<open>ReaderUnlock(0, handle2)\<close>
  with the handle process 1 obtained returns and clears bit 0.
\<close>

theorem ReaderUnlock_clears_own_bit_witness:
  "ReaderUnlock 0 0
     \<lparr>current_slot_id = 1,
       slots = [\<lparr>used_by = 2147483651, message = \<lparr>val = 5\<rparr>\<rparr>, zero_slot, zero_slot, zero_slot]\<rparr>
   = (Inr (),
      \<lparr>current_slot_id = 1,
        slots = [\<lparr>used_by = 2147483650, message = \<lparr>val = 5\<rparr>\<rparr>, zero_slot, zero_slot, zero_slot]\<rparr>)
   \<and> fst (ReaderUnlock 0 0
     \<lparr>current_slot_id = 1,
       slots = [\<lparr>used_by = 2147483651, message = \<lparr>val = 5\<rparr>\<rparr>, zero_slot, zero_slot, zero_slot]\<rparr>)
     = Inr ()"
proof -
  define c where "c = \<lparr>current_slot_id = 1,
       slots = [\<lparr>used_by = 2147483651, message = \<lparr>val = 5\<rparr>\<rparr>, zero_slot, zero_slot, zero_slot]\<rparr>"
  have len: "length (slots c) = 3 + 1" by (simp add: c_def)
  have b: "bit (load_used_by c 0) 0" by (simp add: c_def load_used_by_def)
  from ReaderUnlock_clears_own_bit [OF len, of 0 0] b
  have "fst (ReaderUnlock 0 0 c) = Inr ()" by simp
  moreover have "ReaderUnlock 0 0 c = (Inr (),
      \<lparr>current_slot_id = 1,
        slots = [\<lparr>used_by = 2147483650, message = \<lparr>val = 5\<rparr>\<rparr>, zero_slot, zero_slot, zero_slot]\<rparr>)"
    unfolding c_def by code_simp
  ultimately show ?thesis by (simp add: c_def)
qed

section \<open>The reset loops\<close>

lemma and_not_writer_id: "\<not> bit w 31 \<Longrightarrow> w AND NOT used_by_writer = w"
  by (intro bit_eqI) (auto simp: bit_clear_writer)

lemma and_not_reader_id: "\<not> bit w p \<Longrightarrow> w AND NOT (reader_bit p) = w"
  by (intro bit_eqI) (auto simp: bit_clear_reader)

lemma WriterReset_step_frame [simp]:
  "length (slots (WriterReset_step i c)) = length (slots c)"
  "current_slot_id (WriterReset_step i c) = current_slot_id c"
  by (simp_all add: WriterReset_step_def)

lemma nth_WriterReset_step:
  assumes "j < length (slots c)"
  shows "message (slots (WriterReset_step i c) ! j) = message (slots c ! j)"
    and "used_by (slots (WriterReset_step i c) ! j) =
           (if j = i \<and> int i \<noteq> current_slot_id c - 1
            then used_by (slots c ! j) AND NOT used_by_writer else used_by (slots c ! j))"
  using assms
  by (auto simp: WriterReset_step_def nth_atomic_fetch_and load_used_by_def writer_bit_test
      and_not_writer_id)

lemma WriterReset_prefix:
  "length (slots (fold WriterReset_step [0..<k] c)) = length (slots c) \<and>
   current_slot_id (fold WriterReset_step [0..<k] c) = current_slot_id c \<and>
   (\<forall>j<length (slots c).
      message (slots (fold WriterReset_step [0..<k] c) ! j) = message (slots c ! j) \<and>
      used_by (slots (fold WriterReset_step [0..<k] c) ! j) =
        (if j < k \<and> int j \<noteq> current_slot_id c - 1
         then used_by (slots c ! j) AND NOT used_by_writer else used_by (slots c ! j)))"
proof (induction k)
  case 0
  show ?case by simp
next
  case (Suc k)
  then show ?case by (auto simp: nth_WriterReset_step less_Suc_eq)
qed

lemma WriterReset_frame [simp]:
  "length (slots (WriterReset c)) = length (slots c)"
  "current_slot_id (WriterReset c) = current_slot_id c"
  using WriterReset_prefix [of "length (slots c)" c] by (simp_all add: WriterReset_def)

lemma nth_WriterReset:
  assumes "j < length (slots c)"
  shows "message (slots (WriterReset c) ! j) = message (slots c ! j)"
    and "used_by (slots (WriterReset c) ! j) =
           (if int j \<noteq> current_slot_id c - 1
            then used_by (slots c ! j) AND NOT used_by_writer else used_by (slots c ! j))"
  using WriterReset_prefix [of "length (slots c)" c] assms by (simp_all add: WriterReset_def)

lemma ReaderReset_step_frame [simp]:
  "length (slots (ReaderReset_step p i c)) = length (slots c)"
  "current_slot_id (ReaderReset_step p i c) = current_slot_id c"
  by (simp_all add: ReaderReset_step_def)

lemma nth_ReaderReset_step:
  assumes "j < length (slots c)"
  shows "message (slots (ReaderReset_step p i c) ! j) = message (slots c ! j)"
    and "used_by (slots (ReaderReset_step p i c) ! j) =
           (if j = i then used_by (slots c ! j) AND NOT (reader_bit p) else used_by (slots c ! j))"
  using assms
  by (auto simp: ReaderReset_step_def nth_atomic_fetch_and load_used_by_def reader_bit_test
      and_not_reader_id)

lemma ReaderReset_prefix:
  "length (slots (fold (ReaderReset_step p) [0..<k] c)) = length (slots c) \<and>
   current_slot_id (fold (ReaderReset_step p) [0..<k] c) = current_slot_id c \<and>
   (\<forall>j<length (slots c).
      message (slots (fold (ReaderReset_step p) [0..<k] c) ! j) = message (slots c ! j) \<and>
      used_by (slots (fold (ReaderReset_step p) [0..<k] c) ! j) =
        (if j < k then used_by (slots c ! j) AND NOT (reader_bit p) else used_by (slots c ! j)))"
proof (induction k)
  case 0
  show ?case by simp
next
  case (Suc k)
  then show ?case by (auto simp: nth_ReaderReset_step less_Suc_eq)
qed

lemma ReaderReset_frame [simp]:
  "length (slots (ReaderReset p c)) = length (slots c)"
  "current_slot_id (ReaderReset p c) = current_slot_id c"
  using ReaderReset_prefix [of p "length (slots c)" c] by (simp_all add: ReaderReset_def)

lemma nth_ReaderReset:
  assumes "j < length (slots c)"
  shows "message (slots (ReaderReset p c) ! j) = message (slots c ! j)"
    and "used_by (slots (ReaderReset p c) ! j) = used_by (slots c ! j) AND NOT (reader_bit p)"
  using ReaderReset_prefix [of p "length (slots c)" c] assms by (simp_all add: ReaderReset_def)

text \<open>
  Claim C7. In every container state, \<open>WriterReset\<close> leaves the writer bit (bit 31) clear
  on every slot whose index differs from \<open>current_slot_id_ - 1\<close>, leaves the state word
  of the slot at \<open>current_slot_id_ - 1\<close> as it was, and changes no bit below bit 31 (so no
  reader bit) of any slot; messages and \<open>current_slot_id_\<close> stay as they were.
\<close>

theorem WriterReset_clears_stray_writer_bits:
  "current_slot_id (WriterReset c) = current_slot_id c \<and>
   length (slots (WriterReset c)) = length (slots c) \<and>
   (\<forall>j<length (slots c).
      message (slots (WriterReset c) ! j) = message (slots c ! j) \<and>
      (int j \<noteq> current_slot_id c - 1 \<longrightarrow> \<not> bit (used_by (slots (WriterReset c) ! j)) 31) \<and>
      (int j = current_slot_id c - 1 \<longrightarrow>
         used_by (slots (WriterReset c) ! j) = used_by (slots c ! j)) \<and>
      (\<forall>k<31. bit (used_by (slots (WriterReset c) ! j)) k \<longleftrightarrow> bit (used_by (slots c ! j)) k))"
  by (auto simp: nth_WriterReset bit_clear_writer)

text \<open>
  A writer killed between the store to \<open>current_slot_id_\<close> and the clearing of the old
  slot's mark, with three processes: slot 0, pinned by process 0, still carries the
  writer mark while slot 1 is current. \<open>WriterReset\<close> clears the stray mark, keeps the
  pin and keeps the mark of slot 1.
\<close>

theorem WriterReset_clears_stray_writer_bits_witness:
  "WriterReset
     \<lparr>current_slot_id = 2,
       slots = [\<lparr>used_by = 2147483649, message = \<lparr>val = 5\<rparr>\<rparr>,
                \<lparr>used_by = 2147483648, message = \<lparr>val = 6\<rparr>\<rparr>, zero_slot, zero_slot]\<rparr>
   = \<lparr>current_slot_id = 2,
       slots = [\<lparr>used_by = 1, message = \<lparr>val = 5\<rparr>\<rparr>,
                \<lparr>used_by = 2147483648, message = \<lparr>val = 6\<rparr>\<rparr>, zero_slot, zero_slot]\<rparr>
   \<and> \<not> bit (used_by (slots (WriterReset
     \<lparr>current_slot_id = 2,
       slots = [\<lparr>used_by = 2147483649, message = \<lparr>val = 5\<rparr>\<rparr>,
                \<lparr>used_by = 2147483648, message = \<lparr>val = 6\<rparr>\<rparr>, zero_slot, zero_slot]\<rparr>) ! 0)) 31"
proof -
  define c where "c = \<lparr>current_slot_id = 2,
       slots = [\<lparr>used_by = 2147483649, message = \<lparr>val = 5\<rparr>\<rparr>,
                \<lparr>used_by = 2147483648, message = \<lparr>val = 6\<rparr>\<rparr>, zero_slot, zero_slot]\<rparr>"
  have "0 < length (slots c)" and "int 0 \<noteq> current_slot_id c - 1" by (simp_all add: c_def)
  with WriterReset_clears_stray_writer_bits [of c]
  have "\<not> bit (used_by (slots (WriterReset c) ! 0)) 31" by blast
  moreover have "WriterReset c = \<lparr>current_slot_id = 2,
       slots = [\<lparr>used_by = 1, message = \<lparr>val = 5\<rparr>\<rparr>,
                \<lparr>used_by = 2147483648, message = \<lparr>val = 6\<rparr>\<rparr>, zero_slot, zero_slot]\<rparr>"
    unfolding c_def by code_simp
  ultimately show ?thesis by (simp add: c_def)
qed

section \<open>Publication\<close>

lemma in_bounds_frame [simp]:
  "in_bounds (store_message i m c) k = in_bounds c k"
  "in_bounds (store_used_by i w c) k = in_bounds c k"
  "in_bounds (atomic_fetch_or i b c) k = in_bounds c k"
  "in_bounds (atomic_fetch_and i b c) k = in_bounds c k"
  "in_bounds (c\<lparr>current_slot_id := x\<rparr>) k = in_bounds c k"
  by (simp_all add: in_bounds_def)

lemma WriterUpdateMessage_step:
  assumes f: "find_free_slot (slots c) 0 = Some n"
    and b: "0 < current_slot_id c \<longrightarrow> in_bounds c (current_slot_id c - 1)"
  shows "fst (WriterUpdateMessage msg c) = Inr ()"
    and "current_slot_id (snd (WriterUpdateMessage msg c)) = int n + 1"
    and "length (slots (snd (WriterUpdateMessage msg c))) = length (slots c)"
    and "\<And>j. j < length (slots c) \<Longrightarrow>
           message (slots (snd (WriterUpdateMessage msg c)) ! j) =
             (if j = n then msg else message (slots c ! j))"
    and "\<And>j. j < length (slots c) \<Longrightarrow>
           used_by (slots (snd (WriterUpdateMessage msg c)) ! j) =
             (if 0 < current_slot_id c \<and> j = nat (current_slot_id c - 1)
              then (if j = n then used_by (slots c ! j) OR used_by_writer
                    else used_by (slots c ! j)) AND NOT used_by_writer
              else (if j = n then used_by (slots c ! j) OR used_by_writer
                    else used_by (slots c ! j)))"
  using f b
  by (auto simp: WriterUpdateMessage_def Let_def nth_atomic_fetch_and nth_atomic_fetch_or
      nth_store_message)

lemma WriterUpdateMessage_returns:
  assumes "fst (WriterUpdateMessage msg c) = Inr ()"
  shows "\<exists>n. find_free_slot (slots c) 0 = Some n"
    and "0 < current_slot_id c \<longrightarrow> in_bounds c (current_slot_id c - 1)"
  using assms
  by (auto simp: WriterUpdateMessage_def Let_def split: option.splits if_splits)

lemma exists_free_slot:
  assumes "\<exists>s\<in>set (slots c). used_by s = 0"
  shows "\<exists>n. find_free_slot (slots c) 0 = Some n"
  using assms find_free_slot_None [of "slots c" 0] by (cases "find_free_slot (slots c) 0") auto

text \<open>
  Claim C4. Take a container state of the data model for \<open>N\<close> processes: \<open>N + 1\<close> slots
  and, when \<open>current_slot_id_\<close> is nonzero, the slot at \<open>current_slot_id_ - 1\<close> carrying
  the writer bit or a reader bit (the invariant G1, which every reachable state
  satisfies). If some slot has a zero state word, \<open>WriterUpdateMessage(m)\<close> returns; with
  \<open>n\<close> the first index whose state word was zero, slot \<open>n\<close> holds \<open>m\<close> and has the writer bit
  set, \<open>current_slot_id_\<close> is \<open>n + 1\<close>, and, when the previous \<open>current_slot_id_\<close> was
  \<open>o \<noteq> 0\<close>, slot \<open>o - 1\<close> has the writer bit clear and every other bit as before.
\<close>

theorem WriterUpdateMessage_publishes:
  assumes len: "length (slots c) = N + 1"
    and free: "\<exists>s\<in>set (slots c). used_by s = 0"
    and g1: "current_slot_id c \<noteq> 0 \<longrightarrow>
               in_bounds c (current_slot_id c - 1) \<and>
               (bit (load_used_by c (current_slot_id c - 1)) 31 \<or>
                (\<exists>p<N. bit (load_used_by c (current_slot_id c - 1)) p))"
  shows "\<exists>n<length (slots c).
           used_by (slots c ! n) = 0 \<and> (\<forall>j<n. used_by (slots c ! j) \<noteq> 0) \<and>
           fst (WriterUpdateMessage msg c) = Inr () \<and>
           message (slots (snd (WriterUpdateMessage msg c)) ! n) = msg \<and>
           bit (used_by (slots (snd (WriterUpdateMessage msg c)) ! n)) 31 \<and>
           current_slot_id (snd (WriterUpdateMessage msg c)) = int n + 1 \<and>
           (current_slot_id c \<noteq> 0 \<longrightarrow>
              \<not> bit (used_by (slots (snd (WriterUpdateMessage msg c)) ! nat (current_slot_id c - 1))) 31 \<and>
              (\<forall>k<31. bit (used_by (slots (snd (WriterUpdateMessage msg c)) ! nat (current_slot_id c - 1))) k
                     \<longleftrightarrow> bit (used_by (slots c ! nat (current_slot_id c - 1))) k))"
proof -
  from exists_free_slot [OF free] obtain n where f: "find_free_slot (slots c) 0 = Some n" ..
  note first = find_free_slot_first [OF f]
  from g1 have b: "0 < current_slot_id c \<longrightarrow> in_bounds c (current_slot_id c - 1)" by simp
  note step = WriterUpdateMessage_step [OF f b, where msg = msg]
  have pos: "0 < current_slot_id c" if "current_slot_id c \<noteq> 0"
    using that g1 by (simp add: in_bounds_def)
  have ne: "n \<noteq> nat (current_slot_id c - 1)" if "current_slot_id c \<noteq> 0"
  proof
    assume "n = nat (current_slot_id c - 1)"
    with first(2) have "load_used_by c (current_slot_id c - 1) = 0"
      by (simp add: load_used_by_def)
    with that g1 show False by simp
  qed
  have old: "nat (current_slot_id c - 1) < length (slots c)" if "current_slot_id c \<noteq> 0"
    using that g1 by (auto simp: in_bounds_def)
  have "bit (used_by (slots (snd (WriterUpdateMessage msg c)) ! n)) 31"
    using first(1) ne by (cases "current_slot_id c = 0") (simp_all add: step(5) bit_set_writer)
  moreover have "\<not> bit (used_by (slots (snd (WriterUpdateMessage msg c)) ! nat (current_slot_id c - 1))) 31"
    if "current_slot_id c \<noteq> 0"
    using that ne old pos by (simp add: step(5) bit_clear_writer)
  moreover have "bit (used_by (slots (snd (WriterUpdateMessage msg c)) ! nat (current_slot_id c - 1))) k
                     \<longleftrightarrow> bit (used_by (slots c ! nat (current_slot_id c - 1))) k"
    if "current_slot_id c \<noteq> 0" "k < 31" for k
    using that ne old pos by (simp add: step(5) bit_clear_writer)
  ultimately show ?thesis
    using first step(1,2) step(4) [OF first(1)] by (intro exI [of _ n]) simp
qed

text \<open>
  The second publication of the test "Unlock another's handle for another slot", with
  three processes: slot 0 is current, writer-marked and pinned by process 0; the call
  selects slot 1 and clears the writer mark of slot 0, keeping the pin.
\<close>

theorem WriterUpdateMessage_publishes_witness:
  "WriterUpdateMessage \<lparr>val = 6\<rparr>
     \<lparr>current_slot_id = 1,
       slots = [\<lparr>used_by = 2147483649, message = \<lparr>val = 5\<rparr>\<rparr>, zero_slot, zero_slot, zero_slot]\<rparr>
   = (Inr (),
      \<lparr>current_slot_id = 2,
        slots = [\<lparr>used_by = 1, message = \<lparr>val = 5\<rparr>\<rparr>,
                 \<lparr>used_by = 2147483648, message = \<lparr>val = 6\<rparr>\<rparr>, zero_slot, zero_slot]\<rparr>)
   \<and> fst (WriterUpdateMessage \<lparr>val = 6\<rparr>
     \<lparr>current_slot_id = 1,
       slots = [\<lparr>used_by = 2147483649, message = \<lparr>val = 5\<rparr>\<rparr>, zero_slot, zero_slot, zero_slot]\<rparr>)
     = Inr ()"
proof -
  define c where "c = \<lparr>current_slot_id = 1,
       slots = [\<lparr>used_by = 2147483649, message = \<lparr>val = 5\<rparr>\<rparr>, zero_slot, zero_slot, zero_slot]\<rparr>"
  have len: "length (slots c) = 3 + 1" by (simp add: c_def)
  have free: "\<exists>s\<in>set (slots c). used_by s = 0" by (simp add: c_def zero_slot_def)
  have g1: "current_slot_id c \<noteq> 0 \<longrightarrow>
     in_bounds c (current_slot_id c - 1) \<and>
     (bit (load_used_by c (current_slot_id c - 1)) 31 \<or>
      (\<exists>p<3. bit (load_used_by c (current_slot_id c - 1)) p))"
    by (simp add: c_def in_bounds_def load_used_by_def)
  from WriterUpdateMessage_publishes [OF len free g1, of "\<lparr>val = 6\<rparr>"]
  have "fst (WriterUpdateMessage \<lparr>val = 6\<rparr> c) = Inr ()" by blast
  moreover have "WriterUpdateMessage \<lparr>val = 6\<rparr> c = (Inr (),
      \<lparr>current_slot_id = 2,
        slots = [\<lparr>used_by = 1, message = \<lparr>val = 5\<rparr>\<rparr>,
                 \<lparr>used_by = 2147483648, message = \<lparr>val = 6\<rparr>\<rparr>, zero_slot, zero_slot]\<rparr>)"
    unfolding c_def by code_simp
  ultimately show ?thesis by (simp add: c_def)
qed

section \<open>Locking\<close>

lemma ReaderLock_loop_writer_owned:
  assumes "in_bounds c (current_slot_id c - 1)"
    and "bit (load_used_by c (current_slot_id c - 1)) 31"
  shows "ReaderLock_loop p sched w c =
           (if bit (load_used_by c (current_slot_id c - 1)) p then (Inl DOUBLE_LOCK, c)
            else (Inr (current_slot_id c - 1),
                  atomic_fetch_or (current_slot_id c - 1) (reader_bit p) c))"
  using assms
proof (induction sched arbitrary: w)
  case Nil
  then show ?case
    by (simp add: ReaderLock_loop.simps [of p "[]" w c] ReaderLock_pass_def Let_def
        writer_bit_test reader_bit_test atomic_compare_exchange_weak_def atomic_fetch_or_def)
next
  case (Cons b bs)
  show ?case
  proof (cases b)
    case True
    with Cons.prems Cons.IH show ?thesis
      by (subst ReaderLock_loop.simps)
        (simp add: ReaderLock_pass_def Let_def writer_bit_test reader_bit_test
          atomic_compare_exchange_weak_def)
  next
    case False
    with Cons.prems show ?thesis
      by (subst ReaderLock_loop.simps)
        (simp add: ReaderLock_pass_def Let_def writer_bit_test reader_bit_test
          atomic_compare_exchange_weak_def atomic_fetch_or_def)
  qed
qed

lemma ReaderLock_loop_handle:
  "ReaderLock_loop p sched w c = (Inr h, c') \<Longrightarrow> h = current_slot_id c - 1 \<and> in_bounds c h"
proof (induction sched arbitrary: w)
  case Nil
  then show ?case
    by (auto simp: ReaderLock_loop.simps [of p "[]" w c] ReaderLock_pass_def Let_def
        atomic_compare_exchange_weak_def split: if_splits)
next
  case (Cons b bs)
  then show ?case
    by (auto simp: ReaderLock_loop.simps [of p "b # bs" w c] ReaderLock_pass_def Let_def
        atomic_compare_exchange_weak_def split: if_splits)
qed

lemma ReaderLock_handle:
  "ReaderLock p sched w c = (Inr h, c') \<Longrightarrow> h = current_slot_id c - 1 \<and> in_bounds c h"
  by (auto simp: ReaderLock_def dest: ReaderLock_loop_handle split: if_splits)

lemma ReaderLock_inv:
  assumes "container_inv N c"
  shows "ReaderLock p sched w c =
           (if current_slot_id c = 0 then (Inl EMPTY, c)
            else if bit (load_used_by c (current_slot_id c - 1)) p then (Inl DOUBLE_LOCK, c)
            else (Inr (current_slot_id c - 1),
                  atomic_fetch_or (current_slot_id c - 1) (reader_bit p) c))"
proof (cases "current_slot_id c = 0")
  case True
  then show ?thesis by (simp add: ReaderLock_def)
next
  case False
  with assms have "in_bounds c (current_slot_id c - 1)"
    and "bit (load_used_by c (current_slot_id c - 1)) 31"
    by (auto simp: container_inv_def in_bounds_def)
  from ReaderLock_loop_writer_owned [OF this] False show ?thesis
    by (simp add: ReaderLock_def)
qed

section \<open>The invariant\<close>

lemma container_inv_zero: "container_inv N (zero_container N)"
  by (simp add: container_inv_def zero_container_def)

lemma container_inv_current:
  assumes "container_inv N c" and "current_slot_id c \<noteq> 0"
  shows "in_bounds c (current_slot_id c - 1)" and "nat (current_slot_id c - 1) < N + 1"
    and "bit (used_by (slots c ! nat (current_slot_id c - 1))) 31"
  using assms by (auto simp: container_inv_def in_bounds_def load_used_by_def)

lemma container_inv_fetch_or:
  assumes "container_inv N c"
  shows "container_inv N (atomic_fetch_or (current_slot_id c - 1) (reader_bit p) c)"
proof (cases "current_slot_id c = 0")
  case True
  with assms show ?thesis by (simp add: container_inv_def)
next
  case False
  note cur = container_inv_current [OF assms False]
  from assms cur show ?thesis
    by (simp add: container_inv_def load_used_by_def nth_atomic_fetch_or bit_set_reader)
qed

lemma container_inv_ReaderLock:
  assumes "container_inv N c"
  shows "container_inv N (snd (ReaderLock p sched w c))"
  using assms by (simp add: ReaderLock_inv [OF assms] container_inv_fetch_or)

lemma container_inv_fetch_and_reader:
  assumes "container_inv N c" and "in_bounds c h" and "p < 31"
  shows "container_inv N (atomic_fetch_and h (NOT (reader_bit p)) c)"
proof (cases "current_slot_id c = 0")
  case True
  with assms show ?thesis by (simp add: container_inv_def)
next
  case False
  note cur = container_inv_current [OF assms(1) False]
  from assms cur show ?thesis
    by (auto simp: container_inv_def load_used_by_def nth_atomic_fetch_and bit_clear_reader)
qed

lemma container_inv_ReaderUnlock:
  assumes "container_inv N c" and "p < 31"
  shows "container_inv N (snd (ReaderUnlock p h c))"
  using assms by (simp add: ReaderUnlock_def Let_def container_inv_fetch_and_reader)

lemma container_inv_ReaderReset:
  assumes "container_inv N c" and "p < 31"
  shows "container_inv N (ReaderReset p c)"
proof (cases "current_slot_id c = 0")
  case True
  with assms show ?thesis by (simp add: container_inv_def)
next
  case False
  note cur = container_inv_current [OF assms(1) False]
  from assms cur show ?thesis
    by (simp add: container_inv_def load_used_by_def nth_ReaderReset bit_clear_reader)
qed

lemma container_inv_WriterReset:
  assumes "container_inv N c"
  shows "container_inv N (WriterReset c)"
proof (cases "current_slot_id c = 0")
  case True
  with assms show ?thesis by (simp add: container_inv_def)
next
  case False
  note cur = container_inv_current [OF assms(1) False]
  from assms cur show ?thesis
    by (simp add: container_inv_def load_used_by_def nth_WriterReset)
qed

lemma container_inv_publish_bounds:
  assumes "container_inv N c"
  shows "0 < current_slot_id c \<longrightarrow> in_bounds c (current_slot_id c - 1)"
  using assms by (auto simp: container_inv_def in_bounds_def)

lemma container_inv_free_not_current:
  assumes "container_inv N c" and "find_free_slot (slots c) 0 = Some n"
  shows "\<not> (0 < current_slot_id c \<and> n = nat (current_slot_id c - 1))"
proof
  assume a: "0 < current_slot_id c \<and> n = nat (current_slot_id c - 1)"
  then have "current_slot_id c \<noteq> 0" by simp
  from container_inv_current(3) [OF assms(1) this] a
  have "bit (used_by (slots c ! n)) 31" by simp
  with find_free_slot_first(2) [OF assms(2)] show False by simp
qed

lemma container_inv_WriterUpdateMessage:
  assumes "container_inv N c"
  shows "container_inv N (snd (WriterUpdateMessage msg c))"
proof (cases "find_free_slot (slots c) 0")
  case None
  with assms show ?thesis by (simp add: WriterUpdateMessage_def)
next
  case (Some n)
  note step = WriterUpdateMessage_step [OF Some container_inv_publish_bounds [OF assms], where msg = msg]
  note first = find_free_slot_first [OF Some]
  note ne = container_inv_free_not_current [OF assms Some]
  from assms first(1) have len: "n < N + 1" by (simp add: container_inv_def)
  have "bit (used_by (slots (snd (WriterUpdateMessage msg c)) ! n)) 31"
    using first(1) ne by (auto simp: step(5) bit_set_writer)
  with assms len show ?thesis
    by (simp add: container_inv_def step(2,3) load_used_by_def)
qed

lemma WriterUpdateMessage_inv_no_trap:
  assumes "container_inv N c"
  shows "fst (WriterUpdateMessage msg c) \<noteq> Inl OUT_OF_BOUNDS"
proof (cases "find_free_slot (slots c) 0")
  case None
  then show ?thesis by (simp add: WriterUpdateMessage_def)
next
  case (Some n)
  from WriterUpdateMessage_step(1) [OF Some container_inv_publish_bounds [OF assms], where msg = msg]
  show ?thesis by simp
qed

lemma snd_apply_operation:
  "snd (apply_operation x c) =
     (case x of
        Op_IsEmpty \<Rightarrow> c
      | Op_ReaderLock p sched w \<Rightarrow> snd (ReaderLock p sched w c)
      | Op_ReaderUnlock p h \<Rightarrow> snd (ReaderUnlock p h c)
      | Op_ReaderReset p \<Rightarrow> ReaderReset p c
      | Op_WriterUpdateMessage msg \<Rightarrow> snd (WriterUpdateMessage msg c)
      | Op_WriterReset \<Rightarrow> WriterReset c)"
  by (cases x) (auto split: prod.splits sum.splits)

lemma container_inv_apply_operation:
  assumes "container_inv N c" and "N \<le> 31" and "operation_ok N x"
  shows "container_inv N (snd (apply_operation x c))"
proof (cases x)
  case Op_IsEmpty
  with assms show ?thesis by simp
next
  case (Op_ReaderLock p sched w)
  with container_inv_ReaderLock [OF assms(1), of p sched w] show ?thesis
    by (simp add: snd_apply_operation del: apply_operation.simps)
next
  case (Op_ReaderUnlock p h)
  with assms have "p < 31" by simp
  from container_inv_ReaderUnlock [OF assms(1) this, of h] Op_ReaderUnlock show ?thesis
    by (simp add: snd_apply_operation del: apply_operation.simps)
next
  case (Op_ReaderReset p)
  with assms have "p < 31" by simp
  from container_inv_ReaderReset [OF assms(1) this] Op_ReaderReset show ?thesis by simp
next
  case (Op_WriterUpdateMessage msg)
  with container_inv_WriterUpdateMessage [OF assms(1), of msg] show ?thesis
    by (simp add: snd_apply_operation del: apply_operation.simps)
next
  case Op_WriterReset
  with container_inv_WriterReset [OF assms(1)] show ?thesis by simp
qed

lemma container_inv_run:
  assumes "N \<le> 31" and "list_all (operation_ok N) ops" and "container_inv N c"
    and "run ops c = Some c'"
  shows "container_inv N c'"
  using assms(2-)
proof (induction ops arbitrary: c)
  case Nil
  then show ?case by simp
next
  case (Cons x xs)
  from Cons.prems(1) have ok: "operation_ok N x" and oks: "list_all (operation_ok N) xs" by simp_all
  from container_inv_apply_operation [OF Cons.prems(2) assms(1) ok]
  have inv: "container_inv N (snd (apply_operation x c))" .
  from Cons.prems(3) have "run xs (snd (apply_operation x c)) = Some c'"
    by (simp split: prod.splits if_splits)
  from Cons.IH [OF oks inv this] show ?case .
qed

section \<open>Runs from the zero-filled container\<close>

lemma apply_operation_no_trap:
  assumes "container_inv N c" and "operation_ok N x"
  shows "fst (apply_operation x c) \<noteq> Some OUT_OF_BOUNDS"
proof (cases x)
  case (Op_ReaderLock p sched w)
  then show ?thesis by (simp add: ReaderLock_inv [OF assms(1)])
next
  case (Op_ReaderUnlock p h)
  with assms have "in_bounds c h" by (simp add: container_inv_def in_bounds_def)
  with Op_ReaderUnlock show ?thesis by (simp add: ReaderUnlock_def Let_def)
next
  case (Op_WriterUpdateMessage msg)
  with WriterUpdateMessage_inv_no_trap [OF assms(1), of msg] show ?thesis
    by (auto split: prod.splits sum.splits)
qed simp_all

lemma run_defined:
  assumes "N \<le> 31" and "list_all (operation_ok N) ops" and "container_inv N c"
  shows "\<exists>c'. run ops c = Some c'"
  using assms(2-)
proof (induction ops arbitrary: c)
  case Nil
  show ?case by simp
next
  case (Cons x xs)
  from Cons.prems(1) have ok: "operation_ok N x" and oks: "list_all (operation_ok N) xs" by simp_all
  from container_inv_apply_operation [OF Cons.prems(2) assms(1) ok]
  have inv: "container_inv N (snd (apply_operation x c))" .
  from apply_operation_no_trap [OF Cons.prems(2) ok]
  have "run (x # xs) c = run xs (snd (apply_operation x c))"
    by (cases "apply_operation x c") auto
  with Cons.IH [OF oks inv] show ?case by simp
qed

text \<open>
  Claim C8. Every single-threaded sequence of calls of the six member functions, each
  with its process index in \<open>[0, N)\<close> and its handle in \<open>[0, N]\<close>, runs from the
  zero-filled container to a container state, and in that state, if \<open>current_slot_id_\<close>
  is nonzero, the slot at \<open>current_slot_id_ - 1\<close> exists and has the writer bit set or
  the bit of some process set.
\<close>

theorem current_slot_in_use:
  assumes "N \<le> 31" and "list_all (operation_ok N) ops"
  shows "\<exists>c. run ops (zero_container N) = Some c \<and>
           (current_slot_id c \<noteq> 0 \<longrightarrow>
              in_bounds c (current_slot_id c - 1) \<and>
              (bit (load_used_by c (current_slot_id c - 1)) 31 \<or>
               (\<exists>p<N. bit (load_used_by c (current_slot_id c - 1)) p)))"
proof -
  from run_defined [OF assms container_inv_zero]
  obtain c where r: "run ops (zero_container N) = Some c" ..
  from container_inv_run [OF assms container_inv_zero r] have "container_inv N c" .
  then have "current_slot_id c \<noteq> 0 \<longrightarrow>
              in_bounds c (current_slot_id c - 1) \<and>
              bit (load_used_by c (current_slot_id c - 1)) 31"
    by (auto simp: container_inv_def in_bounds_def)
  with r show ?thesis by blast
qed

text \<open>
  A run with three processes: two publications, two locks (one after a spurious failure
  of the compare-and-swap), an unlock and both resets. Slot 1 is current and carries the
  writer mark and the pin of process 1.
\<close>

theorem current_slot_in_use_witness:
  "run [Op_WriterUpdateMessage \<lparr>val = 10\<rparr>, Op_ReaderLock 0 [] 0, Op_IsEmpty,
        Op_WriterUpdateMessage \<lparr>val = 20\<rparr>, Op_ReaderLock 1 [True] 0,
        Op_ReaderUnlock 0 0, Op_WriterReset, Op_ReaderReset 2] (zero_container 3)
   = Some \<lparr>current_slot_id = 2,
            slots = [\<lparr>used_by = 0, message = \<lparr>val = 10\<rparr>\<rparr>,
                     \<lparr>used_by = 2147483650, message = \<lparr>val = 20\<rparr>\<rparr>, zero_slot, zero_slot]\<rparr>
   \<and> (bit (2147483650 :: 32 word) 31 \<or> bit (2147483650 :: 32 word) 0 \<or>
      bit (2147483650 :: 32 word) 1 \<or> bit (2147483650 :: 32 word) 2)"
proof -
  define ops where "ops = [Op_WriterUpdateMessage \<lparr>val = 10\<rparr>, Op_ReaderLock 0 [] 0, Op_IsEmpty,
        Op_WriterUpdateMessage \<lparr>val = 20\<rparr>, Op_ReaderLock 1 [True] 0,
        Op_ReaderUnlock 0 0, Op_WriterReset, Op_ReaderReset 2]"
  define c where "c = \<lparr>current_slot_id = 2,
            slots = [\<lparr>used_by = 0, message = \<lparr>val = 10\<rparr>\<rparr>,
                     \<lparr>used_by = 2147483650, message = \<lparr>val = 20\<rparr>\<rparr>, zero_slot, zero_slot]\<rparr>"
  have r: "run ops (zero_container 3) = Some c"
    unfolding ops_def c_def by code_simp
  have ok: "list_all (operation_ok 3) ops" by (simp add: ops_def)
  have "(3::nat) \<le> 31" by simp
  from current_slot_in_use [OF this ok] r
  have "bit (load_used_by c (current_slot_id c - 1)) 31 \<or>
        (\<exists>p<3. bit (load_used_by c (current_slot_id c - 1)) p)"
    by (auto simp: c_def)
  then have "bit (2147483650 :: 32 word) 31 \<or> (\<exists>p<3::nat. bit (2147483650 :: 32 word) p)"
    by (simp add: c_def load_used_by_def)
  then have "bit (2147483650 :: 32 word) 31 \<or> bit (2147483650 :: 32 word) 0 \<or>
      bit (2147483650 :: 32 word) 1 \<or> bit (2147483650 :: 32 word) 2"
    by (auto simp: less_Suc_eq numeral_3_eq_3)
  with r show ?thesis by (simp add: ops_def c_def)
qed

text \<open>
  Claim C10. In every state that a sequence of calls (process indices in \<open>[0, N)\<close>,
  handles in \<open>[0, N]\<close>) reaches from the zero-filled container, \<open>current_slot_id_\<close> lies
  in \<open>[0, N + 1]\<close>. \<open>ReaderLock\<close> called there reads no slot outside the array, and a handle
  \<open>h\<close> it returns is a slot index in \<open>[0, N]\<close>: \<open>ReaderGetMessage(h)\<close> and
  \<open>ReaderUnlock(q, h)\<close> stay inside the array, right after the lock and after any further
  calls.
\<close>

theorem handles_in_bounds:
  assumes "N \<le> 31" and "list_all (operation_ok N) ops"
    and "run ops (zero_container N) = Some c"
  shows "0 \<le> current_slot_id c \<and> current_slot_id c \<le> int N + 1 \<and>
         fst (ReaderLock p sched w c) \<noteq> Inl OUT_OF_BOUNDS \<and>
         (\<forall>h c'. ReaderLock p sched w c = (Inr h, c') \<longrightarrow>
            0 \<le> h \<and> h \<le> int N \<and>
            (\<forall>more c''. list_all (operation_ok N) more \<longrightarrow> run more c' = Some c'' \<longrightarrow>
               ReaderGetMessage h c'' = Inr (message (slots c'' ! nat h)) \<and>
               fst (ReaderUnlock q h c'') \<noteq> Inl OUT_OF_BOUNDS))"
proof -
  from container_inv_run [OF assms(1,2) container_inv_zero assms(3)]
  have inv: "container_inv N c" .
  have "fst (ReaderLock p sched w c) \<noteq> Inl OUT_OF_BOUNDS"
    by (simp add: ReaderLock_inv [OF inv])
  moreover have "0 \<le> h \<and> h \<le> int N \<and>
            (\<forall>more c''. list_all (operation_ok N) more \<longrightarrow> run more c' = Some c'' \<longrightarrow>
               ReaderGetMessage h c'' = Inr (message (slots c'' ! nat h)) \<and>
               fst (ReaderUnlock q h c'') \<noteq> Inl OUT_OF_BOUNDS)"
    if l: "ReaderLock p sched w c = (Inr h, c')" for h c'
  proof -
    from ReaderLock_handle [OF l] inv have h: "0 \<le> h" "h \<le> int N"
      by (auto simp: container_inv_def in_bounds_def)
    from container_inv_ReaderLock [OF inv, of p sched w] l have inv': "container_inv N c'"
      by simp
    have "ReaderGetMessage h c'' = Inr (message (slots c'' ! nat h)) \<and>
               fst (ReaderUnlock q h c'') \<noteq> Inl OUT_OF_BOUNDS"
      if "list_all (operation_ok N) more" and "run more c' = Some c''" for more c''
    proof -
      from container_inv_run [OF assms(1) that(1) inv' that(2)] have "container_inv N c''" .
      with h have "in_bounds c'' h" by (simp add: container_inv_def in_bounds_def)
      then show ?thesis by (simp add: ReaderGetMessage_def ReaderUnlock_def Let_def)
    qed
    with h show ?thesis by blast
  qed
  ultimately show ?thesis using inv by (simp add: container_inv_def)
qed

text \<open>
  With three processes: after two publications process 1 locks and obtains handle 1;
  after a third publication the message read through the handle is still the second.
\<close>

theorem handles_in_bounds_witness:
  "run [Op_WriterUpdateMessage \<lparr>val = 10\<rparr>, Op_WriterUpdateMessage \<lparr>val = 20\<rparr>] (zero_container 3)
   = Some \<lparr>current_slot_id = 2,
            slots = [\<lparr>used_by = 0, message = \<lparr>val = 10\<rparr>\<rparr>,
                     \<lparr>used_by = 2147483648, message = \<lparr>val = 20\<rparr>\<rparr>, zero_slot, zero_slot]\<rparr>
   \<and> fst (ReaderLock 1 [] 0
        \<lparr>current_slot_id = 2,
            slots = [\<lparr>used_by = 0, message = \<lparr>val = 10\<rparr>\<rparr>,
                     \<lparr>used_by = 2147483648, message = \<lparr>val = 20\<rparr>\<rparr>, zero_slot, zero_slot]\<rparr>) = Inr 1
   \<and> ReaderGetMessage 1
        \<lparr>current_slot_id = 1,
            slots = [\<lparr>used_by = 2147483648, message = \<lparr>val = 30\<rparr>\<rparr>,
                     \<lparr>used_by = 2, message = \<lparr>val = 20\<rparr>\<rparr>, zero_slot, zero_slot]\<rparr> = Inr \<lparr>val = 20\<rparr>"
proof -
  define ops where "ops = [Op_WriterUpdateMessage \<lparr>val = 10\<rparr>, Op_WriterUpdateMessage \<lparr>val = 20\<rparr>]"
  define c where "c = \<lparr>current_slot_id = 2,
            slots = [\<lparr>used_by = 0, message = \<lparr>val = 10\<rparr>\<rparr>,
                     \<lparr>used_by = 2147483648, message = \<lparr>val = 20\<rparr>\<rparr>, zero_slot, zero_slot]\<rparr>"
  define c' where "c' = \<lparr>current_slot_id = 2,
            slots = [\<lparr>used_by = 0, message = \<lparr>val = 10\<rparr>\<rparr>,
                     \<lparr>used_by = 2147483650, message = \<lparr>val = 20\<rparr>\<rparr>, zero_slot, zero_slot]\<rparr>"
  define c'' where "c'' = \<lparr>current_slot_id = 1,
            slots = [\<lparr>used_by = 2147483648, message = \<lparr>val = 30\<rparr>\<rparr>,
                     \<lparr>used_by = 2, message = \<lparr>val = 20\<rparr>\<rparr>, zero_slot, zero_slot]\<rparr>"
  have r: "run ops (zero_container 3) = Some c"
    unfolding ops_def c_def by code_simp
  have ok: "list_all (operation_ok 3) ops" by (simp add: ops_def)
  have l: "ReaderLock 1 [] 0 c = (Inr 1, c')"
    unfolding c_def c'_def by code_simp
  have ok': "list_all (operation_ok 3) [Op_WriterUpdateMessage \<lparr>val = 30\<rparr>]" by simp
  have r': "run [Op_WriterUpdateMessage \<lparr>val = 30\<rparr>] c' = Some c''"
    unfolding c'_def c''_def by code_simp
  have "(3::nat) \<le> 31" by simp
  from handles_in_bounds [OF this ok r, of 1 "[]" 0 1] l ok' r'
  have "ReaderGetMessage 1 c'' = Inr (message (slots c'' ! nat 1))" by blast
  then have "ReaderGetMessage 1 c'' = Inr \<lparr>val = 20\<rparr>" by (simp add: c''_def)
  with r l show ?thesis by (simp add: ops_def c_def c''_def)
qed

section \<open>Pins survive publications\<close>

lemma WriterUpdateMessage_keeps_message:
  assumes "j < length (slots c)" and "used_by (slots c ! j) \<noteq> 0"
  shows "message (slots (snd (WriterUpdateMessage msg c)) ! j) = message (slots c ! j)"
proof (cases "find_free_slot (slots c) 0")
  case None
  then show ?thesis by (simp add: WriterUpdateMessage_def)
next
  case (Some n)
  from find_free_slot_first(2) [OF Some] assms(2) have "j \<noteq> n" by auto
  with Some assms(1) show ?thesis
    by (auto simp: WriterUpdateMessage_def Let_def nth_atomic_fetch_and nth_atomic_fetch_or
        nth_store_message)
qed

lemma holds_pin_WriterUpdateMessage:
  assumes r: "WriterUpdateMessage msg c = (Inr (), c')"
    and pin: "holds_pin c h p m" and p: "p < 31"
  shows "holds_pin c' h p m"
proof -
  from r have ok: "fst (WriterUpdateMessage msg c) = Inr ()" and c': "c' = snd (WriterUpdateMessage msg c)"
    by simp_all
  from WriterUpdateMessage_returns [OF ok] obtain n
    where f: "find_free_slot (slots c) 0 = Some n"
      and b: "0 < current_slot_id c \<longrightarrow> in_bounds c (current_slot_id c - 1)" by blast
  note step = WriterUpdateMessage_step [OF f b, where msg = msg]
  from pin have h: "nat h < length (slots c)" and hb: "in_bounds c h"
    and bp: "bit (used_by (slots c ! nat h)) p" and m: "message (slots c ! nat h) = m"
    by (auto simp: holds_pin_def in_bounds_def load_used_by_def)
  from bp have "used_by (slots c ! nat h) \<noteq> 0" by auto
  with find_free_slot_first(2) [OF f] have ne: "nat h \<noteq> n" by auto
  have "bit (used_by (slots c' ! nat h)) p"
    using bp p ne by (auto simp: c' step(5) [OF h] bit_clear_writer)
  moreover have "message (slots c' ! nat h) = m"
    using m ne by (simp add: c' step(4) [OF h])
  moreover have "in_bounds c' h" using hb by (simp add: c' in_bounds_def step(3))
  ultimately show ?thesis by (simp add: holds_pin_def load_used_by_def)
qed

lemma WriterUpdateMessage_current_message:
  assumes inv: "container_inv N c" and r: "WriterUpdateMessage msg c = (Inr (), c')"
  shows "container_inv N c'" and "current_slot_id c' \<noteq> 0"
    and "message (slots c' ! nat (current_slot_id c' - 1)) = msg"
proof -
  from r have ok: "fst (WriterUpdateMessage msg c) = Inr ()" and c': "c' = snd (WriterUpdateMessage msg c)"
    by simp_all
  from WriterUpdateMessage_returns [OF ok] obtain n
    where f: "find_free_slot (slots c) 0 = Some n"
      and b: "0 < current_slot_id c \<longrightarrow> in_bounds c (current_slot_id c - 1)" by blast
  note step = WriterUpdateMessage_step [OF f b, where msg = msg]
  show "container_inv N c'" using container_inv_WriterUpdateMessage [OF inv, of msg] by (simp add: c')
  show "current_slot_id c' \<noteq> 0" by (simp add: c' step(2))
  show "message (slots c' ! nat (current_slot_id c' - 1)) = msg"
    using find_free_slot_first(1) [OF f] by (simp add: c' step(2) step(4))
qed

lemma holds_pin_ReaderLock:
  assumes inv: "container_inv N c" and pin: "holds_pin c h p m"
  shows "holds_pin (snd (ReaderLock q sched w c)) h p m"
proof (cases "current_slot_id c = 0")
  case True
  with pin show ?thesis by (simp add: ReaderLock_def)
next
  case False
  from pin have h: "nat h < length (slots c)" by (auto simp: holds_pin_def in_bounds_def)
  with pin show ?thesis
    by (auto simp: ReaderLock_inv [OF inv] holds_pin_def load_used_by_def nth_atomic_fetch_or
        bit_set_reader)
qed

lemma ReaderLock_new_pin:
  assumes inv: "container_inv N c" and q: "q < 32"
    and l: "ReaderLock q sched w c = (Inr h, c')"
  shows "holds_pin c' h q (message (slots c ! nat (current_slot_id c - 1)))"
proof -
  from l have ne: "current_slot_id c \<noteq> 0" by (auto simp: ReaderLock_def)
  note cur = container_inv_current [OF inv ne]
  from inv cur(2) have len: "nat (current_slot_id c - 1) < length (slots c)"
    by (simp add: container_inv_def)
  from l ne have h: "h = current_slot_id c - 1"
    and c': "c' = atomic_fetch_or (current_slot_id c - 1) (reader_bit q) c"
    by (auto simp: ReaderLock_inv [OF inv] split: if_splits)
  from cur(1) len q show ?thesis
    by (simp add: holds_pin_def h c' load_used_by_def nth_atomic_fetch_or bit_set_reader)
qed

lemma publish_and_lock_pins:
  assumes N: "N \<le> 31"
  shows "container_inv N c \<Longrightarrow> list_all (\<lambda>r. fst r < N) rounds \<Longrightarrow>
         publish_and_lock rounds c = (Inr hs, c1) \<Longrightarrow>
         container_inv N c1 \<and> length hs = length rounds \<and>
         (\<forall>i<length rounds. holds_pin c1 (hs ! i) (fst (rounds ! i)) (fst (snd (rounds ! i)))) \<and>
         (\<forall>h p m. p < 31 \<longrightarrow> holds_pin c h p m \<longrightarrow> holds_pin c1 h p m)"
proof (induction rounds arbitrary: c hs)
  case Nil
  then show ?case by simp
next
  case (Cons r rounds)
  obtain p msg sched w where r: "r = (p, msg, sched, w)" by (cases r) auto
  from Cons.prems(2) r N have p: "p < N" "p < 31" "p < 32"
    and rest: "list_all (\<lambda>r. fst r < N) rounds" by simp_all
  from Cons.prems(3) r obtain ca h cb hs'
    where pub: "WriterUpdateMessage msg c = (Inr (), ca)"
      and lock: "ReaderLock p sched w ca = (Inr h, cb)"
      and rec: "publish_and_lock rounds cb = (Inr hs', c1)"
      and hs: "hs = h # hs'"
    by (auto split: prod.splits sum.splits)
  note a = WriterUpdateMessage_current_message [OF Cons.prems(1) pub]
  from container_inv_ReaderLock [OF a(1), of p sched w] lock have invb: "container_inv N cb"
    by simp
  from ReaderLock_new_pin [OF a(1) p(3) lock] a(3) have new: "holds_pin cb h p msg" by simp
  from Cons.IH [OF invb rest rec]
  have ih: "container_inv N c1" "length hs' = length rounds"
    "\<forall>i<length rounds. holds_pin c1 (hs' ! i) (fst (rounds ! i)) (fst (snd (rounds ! i)))"
    "\<forall>h p m. p < 31 \<longrightarrow> holds_pin cb h p m \<longrightarrow> holds_pin c1 h p m" by simp_all
  have keep: "holds_pin c1 h' p' m'" if "p' < 31" and "holds_pin c h' p' m'" for h' p' m'
  proof -
    from holds_pin_WriterUpdateMessage [OF pub that(2) that(1)] have "holds_pin ca h' p' m'" .
    from holds_pin_ReaderLock [OF a(1) this, of p sched w] lock have "holds_pin cb h' p' m'"
      by simp
    with ih(4) that(1) show ?thesis by blast
  qed
  have pins: "holds_pin c1 (hs ! i) (fst ((r # rounds) ! i)) (fst (snd ((r # rounds) ! i)))"
    if "i < length (r # rounds)" for i
  proof (cases i)
    case 0
    from ih(4) p(2) new have "holds_pin c1 h p msg" by blast
    with 0 show ?thesis by (simp add: hs r)
  next
    case (Suc i')
    with that ih(3) show ?thesis by (simp add: hs)
  qed
  from ih(1,2) pins keep show ?case by (simp add: hs)
qed

lemma publish_all_pins:
  "publish_all extra c = (Inr (), c') \<Longrightarrow> p < 31 \<Longrightarrow> holds_pin c h p m \<Longrightarrow> holds_pin c' h p m"
proof (induction extra arbitrary: c)
  case Nil
  then show ?case by simp
next
  case (Cons msg extra)
  from Cons.prems(1) obtain ca where pub: "WriterUpdateMessage msg c = (Inr (), ca)"
    and rec: "publish_all extra ca = (Inr (), c')"
    by (auto split: prod.splits sum.splits)
  from holds_pin_WriterUpdateMessage [OF pub Cons.prems(3) Cons.prems(2)]
  have "holds_pin ca h p m" .
  from Cons.IH [OF rec Cons.prems(2) this] show ?case .
qed

text \<open>
  Claim C2. Take any single-threaded sequence of calls from the zero-filled container
  (process indices in \<open>[0, N)\<close>, handles in \<open>[0, N]\<close>), and let it go on with readers
  that lock the current slot after each of several publications, without unlocking, and
  with any number of further publications. If none of these publications and locks
  throws, the message read through each handle with \<open>ReaderGetMessage\<close> at the end is the
  message published just before that handle was obtained. And \<open>WriterUpdateMessage\<close>, in
  any container state, leaves the message of every slot whose state word is nonzero as
  it was.
\<close>

theorem retained_handles_keep_their_message:
  assumes "N \<le> 31" and "list_all (operation_ok N) before"
    and "run before (zero_container N) = Some c"
    and "list_all (\<lambda>r. fst r < N) rounds"
    and "publish_and_lock rounds c = (Inr hs, c1)"
    and "publish_all extra c1 = (Inr (), c2)"
  shows "length hs = length rounds \<and>
         (\<forall>i<length rounds. ReaderGetMessage (hs ! i) c2 = Inr (fst (snd (rounds ! i)))) \<and>
         (j < length (slots d) \<and> used_by (slots d ! j) \<noteq> 0 \<longrightarrow>
            message (slots (snd (WriterUpdateMessage msg d)) ! j) = message (slots d ! j))"
proof -
  from container_inv_run [OF assms(1,2) container_inv_zero assms(3)]
  have inv: "container_inv N c" .
  note pl = publish_and_lock_pins [OF assms(1) inv assms(4,5)]
  have "ReaderGetMessage (hs ! i) c2 = Inr (fst (snd (rounds ! i)))" if i: "i < length rounds" for i
  proof -
    from assms(4) i have "fst (rounds ! i) < N"
      by (simp add: list_all_length)
    with assms(1) have p: "fst (rounds ! i) < 31" by simp
    from pl i have "holds_pin c1 (hs ! i) (fst (rounds ! i)) (fst (snd (rounds ! i)))" by blast
    from publish_all_pins [OF assms(6) p this] show ?thesis
      by (simp add: holds_pin_def ReaderGetMessage_def)
  qed
  with pl show ?thesis by (simp add: WriterUpdateMessage_keeps_message)
qed

text \<open>
  The test "Lock several slots by the same process", with three processes: process 0
  locks after the publication of 10 and after that of 20, then 30 is published; the
  handles are 0 and 1 and still give 10 and 20.
\<close>

theorem retained_handles_keep_their_message_witness:
  "publish_and_lock [(0, \<lparr>val = 10\<rparr>, [], 0), (0, \<lparr>val = 20\<rparr>, [True], 0)] (zero_container 3)
   = (Inr [0, 1],
      \<lparr>current_slot_id = 2,
        slots = [\<lparr>used_by = 1, message = \<lparr>val = 10\<rparr>\<rparr>,
                 \<lparr>used_by = 2147483649, message = \<lparr>val = 20\<rparr>\<rparr>, zero_slot, zero_slot]\<rparr>)
   \<and> ReaderGetMessage 0
        (snd (publish_all [\<lparr>val = 30\<rparr>]
           \<lparr>current_slot_id = 2,
             slots = [\<lparr>used_by = 1, message = \<lparr>val = 10\<rparr>\<rparr>,
                      \<lparr>used_by = 2147483649, message = \<lparr>val = 20\<rparr>\<rparr>, zero_slot, zero_slot]\<rparr>))
     = Inr \<lparr>val = 10\<rparr>
   \<and> ReaderGetMessage 1
        (snd (publish_all [\<lparr>val = 30\<rparr>]
           \<lparr>current_slot_id = 2,
             slots = [\<lparr>used_by = 1, message = \<lparr>val = 10\<rparr>\<rparr>,
                      \<lparr>used_by = 2147483649, message = \<lparr>val = 20\<rparr>\<rparr>, zero_slot, zero_slot]\<rparr>))
     = Inr \<lparr>val = 20\<rparr>"
proof -
  define rounds :: "(nat \<times> Message \<times> bool list \<times> 32 word) list"
    where "rounds = [(0, \<lparr>val = 10\<rparr>, [], 0), (0, \<lparr>val = 20\<rparr>, [True], 0)]"
  define c1 where "c1 = \<lparr>current_slot_id = 2,
        slots = [\<lparr>used_by = 1, message = \<lparr>val = 10\<rparr>\<rparr>,
                 \<lparr>used_by = 2147483649, message = \<lparr>val = 20\<rparr>\<rparr>, zero_slot, zero_slot]\<rparr>"
  define c2 where "c2 = snd (publish_all [\<lparr>val = 30\<rparr>] c1)"
  have r1: "publish_and_lock rounds (zero_container 3) = (Inr [0, 1], c1)"
    unfolding rounds_def c1_def by code_simp
  have "fst (publish_all [\<lparr>val = 30\<rparr>] c1) = Inr ()"
    unfolding c1_def by code_simp
  then have r2: "publish_all [\<lparr>val = 30\<rparr>] c1 = (Inr (), c2)"
    by (simp add: c2_def prod_eq_iff)
  have ok: "list_all (\<lambda>r. fst r < 3) rounds" by (simp add: rounds_def)
  have "(3::nat) \<le> 31" and "list_all (operation_ok 3) []"
    and "run [] (zero_container 3) = Some (zero_container 3)" by simp_all
  from retained_handles_keep_their_message [OF this ok r1 r2]
  have "\<forall>i<length rounds. ReaderGetMessage ([0, 1] ! i) c2 = Inr (fst (snd (rounds ! i)))"
    by blast
  note g = this [rule_format]
  have "(0::nat) < length rounds" and "(1::nat) < length rounds" by (simp_all add: rounds_def)
  from g [OF this(1)] g [OF this(2)]
  have "ReaderGetMessage ([0, 1] ! 0) c2 = Inr (fst (snd (rounds ! 0)))"
    and "ReaderGetMessage ([0, 1] ! 1) c2 = Inr (fst (snd (rounds ! 1)))"
    by simp_all
  then have "ReaderGetMessage 0 c2 = Inr \<lparr>val = 10\<rparr>" and "ReaderGetMessage 1 c2 = Inr \<lparr>val = 20\<rparr>"
    by (simp_all add: rounds_def)
  with r1 show ?thesis by (simp add: rounds_def c1_def c2_def)
qed

section \<open>All readers hold a pin\<close>

lemma single_pins_words:
  assumes "single_pins N pins c"
  shows "length (slots c) = N + 1"
    and "\<And>j. j < N + 1 \<Longrightarrow> used_by (slots c ! j) = pin_word (current_slot_id c) pins j"
proof -
  from assms have eq: "map used_by (slots c) = map (pin_word (current_slot_id c) pins) [0..<N + 1]"
    by (simp add: single_pins_def)
  from arg_cong [OF eq, of length] show len: "length (slots c) = N + 1" by simp
  fix j assume j: "j < N + 1"
  from arg_cong [OF eq, of "\<lambda>xs. xs ! j"] j len
  show "used_by (slots c ! j) = pin_word (current_slot_id c) pins j"
    by (simp del: upt_Suc)
qed

lemma single_pins_free_slot:
  assumes "single_pins N pins c"
  shows "\<exists>s\<in>set (slots c). used_by s = 0"
proof -
  define k where "k = nat (current_slot_id c - 1)"
  define S where "S = insert k (snd ` set pins)"
  from assms have N: "0 < N" and lp: "length pins = N - 1" and cur: "1 \<le> current_slot_id c"
    by (simp_all add: single_pins_def)
  have "card (snd ` set pins) \<le> length pins"
    by (rule order_trans [OF card_image_le card_length]) simp
  moreover have "card S \<le> Suc (card (snd ` set pins))"
    unfolding S_def by (simp add: card_insert_if)
  ultimately have "card S \<le> Suc (length pins)" by simp
  with lp N have cS: "card S \<le> N" by simp
  have "\<not> {0..N} \<subseteq> S"
  proof
    assume "{0..N} \<subseteq> S"
    then have "card {0..N} \<le> card S" by (rule card_mono [rotated]) (simp add: S_def)
    with cS show False by simp
  qed
  then obtain j where "j \<in> {0..N}" and "j \<notin> S" by blast
  then have j: "j \<le> N" "j \<noteq> k" "j \<notin> snd ` set pins" by (simp_all add: S_def)
  from j(2) cur have "int j \<noteq> current_slot_id c - 1" by (auto simp: k_def)
  moreover from j(3) have "filter (\<lambda>(p, s). s = j) pins = []"
    by (auto simp: filter_empty_conv rev_image_eqI)
  ultimately have "pin_word (current_slot_id c) pins j = 0" by (simp add: pin_word_def)
  with single_pins_words [OF assms] j(1) have "used_by (slots c ! j) = 0" "j < length (slots c)"
    by simp_all
  then show ?thesis by (auto intro: bexI [of _ "slots c ! j"])
qed

lemma used_by_writer_nonzero: "used_by_writer \<noteq> 0"
  by (simp add: used_by_writer_def)

text \<open>
  Claim C3. In every container state for \<open>N\<close> processes where \<open>N - 1\<close> distinct
  processes hold exactly one pin each, on \<open>N - 1\<close> distinct slots, and one further slot is
  the current slot and carries the writer mark, two consecutive calls of
  \<open>WriterUpdateMessage\<close> both return: neither throws.
\<close>

theorem two_publications_with_all_readers_pinned:
  assumes "single_pins N pins c"
  shows "fst (WriterUpdateMessage m1 c) = Inr () \<and>
         fst (WriterUpdateMessage m2 (snd (WriterUpdateMessage m1 c))) = Inr ()"
proof -
  define k where "k = nat (current_slot_id c - 1)"
  note w = single_pins_words [OF assms]
  from assms have cur: "1 \<le> current_slot_id c" "current_slot_id c \<le> int N + 1"
    by (simp_all add: single_pins_def)
  with w(1) have kb: "k < length (slots c)" and b: "0 < current_slot_id c \<longrightarrow> in_bounds c (current_slot_id c - 1)"
    by (auto simp: k_def in_bounds_def)
  from cur have "int k = current_slot_id c - 1" by (simp add: k_def)
  with w(2) [of k] kb w(1) have uk: "used_by (slots c ! k) = used_by_writer"
    by (simp add: pin_word_def)
  from exists_free_slot [OF single_pins_free_slot [OF assms]]
  obtain n where f: "find_free_slot (slots c) 0 = Some n" ..
  note first = find_free_slot_first [OF f]
  from first(2) uk have ne: "k \<noteq> n" using used_by_writer_nonzero by auto
  note step = WriterUpdateMessage_step [OF f b, where msg = m1]
  define c1 where "c1 = snd (WriterUpdateMessage m1 c)"
  from step(5) [OF kb] cur ne uk have "used_by (slots c1 ! k) = 0"
    by (simp add: c1_def k_def)
  with kb step(3) have "\<exists>s\<in>set (slots c1). used_by s = 0"
    by (auto simp: c1_def intro: bexI [of _ "slots c1 ! k"])
  from exists_free_slot [OF this] obtain n' where f': "find_free_slot (slots c1) 0 = Some n'" ..
  from first(1) step(2,3) have b': "0 < current_slot_id c1 \<longrightarrow> in_bounds c1 (current_slot_id c1 - 1)"
    by (simp add: c1_def in_bounds_def)
  from WriterUpdateMessage_step(1) [OF f' b', where msg = m2] step(1) show ?thesis
    by (simp add: c1_def)
qed

text \<open>
  With three processes: process 0 pins slot 0, process 1 pins slot 1, slot 2 is current
  and carries the writer mark, slot 3 is free. The first publication takes slot 3 and
  frees slot 2, the second takes slot 2.
\<close>

theorem two_publications_with_all_readers_pinned_witness:
  "WriterUpdateMessage \<lparr>val = 1\<rparr>
     \<lparr>current_slot_id = 3,
       slots = [\<lparr>used_by = 1, message = \<lparr>val = 0\<rparr>\<rparr>, \<lparr>used_by = 2, message = \<lparr>val = 10\<rparr>\<rparr>,
                \<lparr>used_by = 2147483648, message = \<lparr>val = 20\<rparr>\<rparr>, zero_slot]\<rparr>
   = (Inr (),
      \<lparr>current_slot_id = 4,
        slots = [\<lparr>used_by = 1, message = \<lparr>val = 0\<rparr>\<rparr>, \<lparr>used_by = 2, message = \<lparr>val = 10\<rparr>\<rparr>,
                 \<lparr>used_by = 0, message = \<lparr>val = 20\<rparr>\<rparr>,
                 \<lparr>used_by = 2147483648, message = \<lparr>val = 1\<rparr>\<rparr>]\<rparr>)
   \<and> fst (WriterUpdateMessage \<lparr>val = 2\<rparr>
      \<lparr>current_slot_id = 4,
        slots = [\<lparr>used_by = 1, message = \<lparr>val = 0\<rparr>\<rparr>, \<lparr>used_by = 2, message = \<lparr>val = 10\<rparr>\<rparr>,
                 \<lparr>used_by = 0, message = \<lparr>val = 20\<rparr>\<rparr>,
                 \<lparr>used_by = 2147483648, message = \<lparr>val = 1\<rparr>\<rparr>]\<rparr>) = Inr ()"
proof -
  define c where "c = \<lparr>current_slot_id = 3,
       slots = [\<lparr>used_by = 1, message = \<lparr>val = 0\<rparr>\<rparr>, \<lparr>used_by = 2, message = \<lparr>val = 10\<rparr>\<rparr>,
                \<lparr>used_by = 2147483648, message = \<lparr>val = 20\<rparr>\<rparr>, zero_slot]\<rparr>"
  define c1 where "c1 = \<lparr>current_slot_id = 4,
        slots = [\<lparr>used_by = 1, message = \<lparr>val = 0\<rparr>\<rparr>, \<lparr>used_by = 2, message = \<lparr>val = 10\<rparr>\<rparr>,
                 \<lparr>used_by = 0, message = \<lparr>val = 20\<rparr>\<rparr>,
                 \<lparr>used_by = 2147483648, message = \<lparr>val = 1\<rparr>\<rparr>]\<rparr>"
  have sp: "single_pins 3 [(0, 0), (1, 1)] c"
    unfolding c_def by code_simp
  have r: "WriterUpdateMessage \<lparr>val = 1\<rparr> c = (Inr (), c1)"
    unfolding c_def c1_def by code_simp
  from two_publications_with_all_readers_pinned [OF sp, of "\<lparr>val = 1\<rparr>" "\<lparr>val = 2\<rparr>"] r
  have "fst (WriterUpdateMessage \<lparr>val = 2\<rparr> c1) = Inr ()" by simp
  with r show ?thesis by (simp add: c_def c1_def)
qed

section \<open>The argument check of the process binary\<close>

lemma main_arguments_rejects_iff:
  "main_arguments number_of_processes argc process_index = Some 1 \<longleftrightarrow>
     argc < 2 \<or> number_of_processes < process_index"
  by (simp add: main_arguments_def)

text \<open>
  Claim C9. The binary should exit with a nonzero status when the index lies outside
  \<open>[0, N)\<close>. Built for three processes (the default \<open>PROC_COUNT\<close> of CMakeLists.txt) and
  started as \<open>Proc 3\<close>, \<open>main\<close> does not return 1: the guard is
  \<open>process_index > number_of_processes\<close>, while its own message says
  "Max index is N - 1".
\<close>

theorem main_arguments_accepts_process_count:
  "main_arguments 3 2 3 = None"
  by (simp add: main_arguments_def)

end
